theory Spec2Isabelle
  imports Main "HOL-Library.Multiset"
begin

section \<open>Boards\<close>

text \<open>
  A board is a Python list of rows, each row a list of integers; \<open>0\<close> is the empty cell.
  The rows of a board are separate list objects (the class builds its boards with a list
  comprehension and copies them row by row), so a board is modelled as a value.
  Row and column indices come from \<open>range\<close> loops or from an explicit range check, so
  they are natural numbers. Reading or writing outside a list raises \<open>IndexError\<close>;
  using \<open>original_puzzle\<close> before a puzzle was generated raises \<open>TypeError\<close>.
\<close>

datatype error = IndexError | TypeError

type_synonym board = "int list list"

definition get_cell :: "board \<Rightarrow> nat \<Rightarrow> nat \<Rightarrow> error + int" where
  "get_cell board r c =
     (if r < length board \<and> c < length (board ! r) then Inr (board ! r ! c)
      else Inl IndexError)"

definition set_cell :: "board \<Rightarrow> nat \<Rightarrow> nat \<Rightarrow> int \<Rightarrow> error + board" where
  "set_cell board r c v =
     (if r < length board \<and> c < length (board ! r)
      then Inr (board[r := (board ! r)[c := v]])
      else Inl IndexError)"

text \<open>\<open>[[0 for _ in range(size)] for _ in range(size)]\<close>\<close>

definition empty_board :: "nat \<Rightarrow> board" where
  "empty_board n = replicate n (replicate n 0)"

text \<open>\<open>[row[:] for row in board]\<close>\<close>

definition copy_board :: "board \<Rightarrow> board" where
  "copy_board board = map (\<lambda>row. row) board"

section \<open>find_empty_cell\<close>

fun find_in_row :: "board \<Rightarrow> nat \<Rightarrow> nat list \<Rightarrow> error + (nat \<times> nat) option" where
  "find_in_row board r [] = Inr None"
| "find_in_row board r (c # cs) =
     (case get_cell board r c of
        Inl e \<Rightarrow> Inl e
      | Inr x \<Rightarrow> if x = 0 then Inr (Some (r, c)) else find_in_row board r cs)"

fun find_in_rows :: "nat \<Rightarrow> board \<Rightarrow> nat list \<Rightarrow> error + (nat \<times> nat) option" where
  "find_in_rows n board [] = Inr None"
| "find_in_rows n board (r # rs) =
     (case find_in_row board r [0..<n] of
        Inl e \<Rightarrow> Inl e
      | Inr (Some p) \<Rightarrow> Inr (Some p)
      | Inr None \<Rightarrow> find_in_rows n board rs)"

definition find_empty_cell :: "nat \<Rightarrow> board \<Rightarrow> error + (nat \<times> nat) option" where
  "find_empty_cell n board = find_in_rows n board [0..<n]"

section \<open>is_valid\<close>

text \<open>Each loop yields \<open>Inr False\<close> when it executes \<open>return False\<close> and \<open>Inr True\<close>
  when it runs to its end.\<close>

fun check_row :: "board \<Rightarrow> nat \<Rightarrow> nat \<Rightarrow> int \<Rightarrow> nat list \<Rightarrow> error + bool" where
  "check_row board row col v [] = Inr True"
| "check_row board row col v (c # cs) =
     (case get_cell board row c of
        Inl e \<Rightarrow> Inl e
      | Inr x \<Rightarrow> if x = v \<and> c \<noteq> col then Inr False else check_row board row col v cs)"

fun check_col :: "board \<Rightarrow> nat \<Rightarrow> nat \<Rightarrow> int \<Rightarrow> nat list \<Rightarrow> error + bool" where
  "check_col board row col v [] = Inr True"
| "check_col board row col v (r # rs) =
     (case get_cell board r col of
        Inl e \<Rightarrow> Inl e
      | Inr x \<Rightarrow> if x = v \<and> r \<noteq> row then Inr False else check_col board row col v rs)"

fun check_box_row :: "board \<Rightarrow> nat \<Rightarrow> nat \<Rightarrow> int \<Rightarrow> nat \<Rightarrow> nat list \<Rightarrow> error + bool" where
  "check_box_row board row col v r [] = Inr True"
| "check_box_row board row col v r (c # cs) =
     (case get_cell board r c of
        Inl e \<Rightarrow> Inl e
      | Inr x \<Rightarrow> if x = v \<and> (r, c) \<noteq> (row, col) then Inr False
                else check_box_row board row col v r cs)"

fun check_box :: "board \<Rightarrow> nat \<Rightarrow> nat \<Rightarrow> int \<Rightarrow> nat \<Rightarrow> nat list \<Rightarrow> error + bool" where
  "check_box board row col v box_col_start [] = Inr True"
| "check_box board row col v box_col_start (r # rs) =
     (case check_box_row board row col v r [box_col_start..<box_col_start + 3] of
        Inl e \<Rightarrow> Inl e
      | Inr False \<Rightarrow> Inr False
      | Inr True \<Rightarrow> check_box board row col v box_col_start rs)"

definition is_valid :: "nat \<Rightarrow> board \<Rightarrow> nat \<Rightarrow> nat \<Rightarrow> int \<Rightarrow> error + bool" where
  "is_valid n board row col v =
     (case check_row board row col v [0..<n] of
        Inl e \<Rightarrow> Inl e
      | Inr False \<Rightarrow> Inr False
      | Inr True \<Rightarrow>
          (case check_col board row col v [0..<n] of
             Inl e \<Rightarrow> Inl e
           | Inr False \<Rightarrow> Inr False
           | Inr True \<Rightarrow>
               (let box_row_start = row - row mod 3;
                    box_col_start = col - col mod 3
                in check_box board row col v box_col_start
                     [box_row_start..<box_row_start + 3])))"

text \<open>\<open>range(1, size + 1)\<close>\<close>

definition candidates :: "nat \<Rightarrow> int list" where
  "candidates n = map int [1..<n + 1]"

section \<open>solve\<close>

text \<open>
  The board is mutated in place; the model returns the board as it is when the call
  returns, next to the returned flag. A call without a board works on \<open>self.board\<close>, which
  the caller then passes. \<open>solve_loop\<close> is the \<open>for num in range(1, size + 1)\<close> loop of
  one call, at the cell \<open>(row, col)\<close>.
\<close>

function solve :: "nat \<Rightarrow> board \<Rightarrow> error + (bool \<times> board)"
  and solve_loop :: "nat \<Rightarrow> board \<Rightarrow> nat \<Rightarrow> nat \<Rightarrow> int list \<Rightarrow> error + (bool \<times> board)" where
  "solve n board =
     (case find_empty_cell n board of
        Inl e \<Rightarrow> Inl e
      | Inr None \<Rightarrow> Inr (True, board)
      | Inr (Some (row, col)) \<Rightarrow> solve_loop n board row col (candidates n))"
| "solve_loop n board row col [] = Inr (False, board)"
| "solve_loop n board row col (num # nums) =
     (case is_valid n board row col num of
        Inl e \<Rightarrow> Inl e
      | Inr False \<Rightarrow> solve_loop n board row col nums
      | Inr True \<Rightarrow>
          (case set_cell board row col num of
             Inl e \<Rightarrow> Inl e
           | Inr board1 \<Rightarrow>
               (case solve n board1 of
                  Inl e \<Rightarrow> Inl e
                | Inr (True, board2) \<Rightarrow> Inr (True, board2)
                | Inr (False, board2) \<Rightarrow>
                    (case set_cell board2 row col 0 of
                       Inl e \<Rightarrow> Inl e
                     | Inr board3 \<Rightarrow> solve_loop n board3 row col nums))))"
  by pat_completeness auto

section \<open>_count_solutions\<close>

text \<open>
  The recursion on an explicit board. \<open>count_loop\<close> is the loop over the candidates with
  the running \<open>count\<close> (named \<open>cnt\<close>); it returns as soon as the running count exceeds 1.
\<close>

function count_solutions :: "nat \<Rightarrow> board \<Rightarrow> error + (int \<times> board)"
  and count_loop :: "nat \<Rightarrow> board \<Rightarrow> nat \<Rightarrow> nat \<Rightarrow> int list \<Rightarrow> int \<Rightarrow> error + (int \<times> board)" where
  "count_solutions n board =
     (case find_empty_cell n board of
        Inl e \<Rightarrow> Inl e
      | Inr None \<Rightarrow> Inr (1, board)
      | Inr (Some (row, col)) \<Rightarrow> count_loop n board row col (candidates n) 0)"
| "count_loop n board row col [] cnt = Inr (cnt, board)"
| "count_loop n board row col (num # nums) cnt =
     (case is_valid n board row col num of
        Inl e \<Rightarrow> Inl e
      | Inr False \<Rightarrow> count_loop n board row col nums cnt
      | Inr True \<Rightarrow>
          (case set_cell board row col num of
             Inl e \<Rightarrow> Inl e
           | Inr board1 \<Rightarrow>
               (case count_solutions n board1 of
                  Inl e \<Rightarrow> Inl e
                | Inr (k, board2) \<Rightarrow>
                    (case set_cell board2 row col 0 of
                       Inl e \<Rightarrow> Inl e
                     | Inr board3 \<Rightarrow>
                         if cnt + k > 1 then Inr (cnt + k, board3)
                         else count_loop n board3 row col nums (cnt + k)))))"
  by pat_completeness auto

section \<open>The random source and random.shuffle\<close>

text \<open>
  The random source is the sequence of raw draws it will deliver (exhausted, it delivers
  zeros), so that a statement about every \<open>rng\<close> is a statement about every random
  sequence. \<open>random.shuffle\<close> of the standard library walks the list from its last index
  down to 1 and exchanges \<open>x[i]\<close> with \<open>x[j]\<close>, \<open>j\<close> drawn below \<open>i + 1\<close>.
\<close>

type_synonym rng = "nat list"

definition randbelow :: "nat \<Rightarrow> rng \<Rightarrow> nat \<times> rng" where
  "randbelow k rng = (case rng of [] \<Rightarrow> (0, []) | x # rest \<Rightarrow> (x mod k, rest))"

fun shuffle_from :: "nat \<Rightarrow> 'a list \<Rightarrow> rng \<Rightarrow> 'a list \<times> rng" where
  "shuffle_from 0 xs rng = (xs, rng)"
| "shuffle_from (Suc k) xs rng =
     (case randbelow (Suc k + 1) rng of
        (j, rng') \<Rightarrow> shuffle_from k (xs[Suc k := xs ! j, j := xs ! Suc k]) rng')"

definition shuffle :: "'a list \<Rightarrow> rng \<Rightarrow> 'a list \<times> rng" where
  "shuffle xs rng = shuffle_from (length xs - 1) xs rng"

section \<open>_fill_board\<close>

function fill_board :: "nat \<Rightarrow> board \<Rightarrow> rng \<Rightarrow> error + (bool \<times> board \<times> rng)"
  and fill_loop :: "nat \<Rightarrow> board \<Rightarrow> nat \<Rightarrow> nat \<Rightarrow> int list \<Rightarrow> rng \<Rightarrow> error + (bool \<times> board \<times> rng)" where
  "fill_board n board rng =
     (case find_empty_cell n board of
        Inl e \<Rightarrow> Inl e
      | Inr None \<Rightarrow> Inr (True, board, rng)
      | Inr (Some (row, col)) \<Rightarrow>
          (case shuffle (candidates n) rng of
             (nums, rng1) \<Rightarrow> fill_loop n board row col nums rng1))"
| "fill_loop n board row col [] rng = Inr (False, board, rng)"
| "fill_loop n board row col (num # nums) rng =
     (case is_valid n board row col num of
        Inl e \<Rightarrow> Inl e
      | Inr False \<Rightarrow> fill_loop n board row col nums rng
      | Inr True \<Rightarrow>
          (case set_cell board row col num of
             Inl e \<Rightarrow> Inl e
           | Inr board1 \<Rightarrow>
               (case fill_board n board1 rng of
                  Inl e \<Rightarrow> Inl e
                | Inr (True, board2, rng2) \<Rightarrow> Inr (True, board2, rng2)
                | Inr (False, board2, rng2) \<Rightarrow>
                    (case set_cell board2 row col 0 of
                       Inl e \<Rightarrow> Inl e
                     | Inr board3 \<Rightarrow> fill_loop n board3 row col nums rng2))))"
  by pat_completeness auto

section \<open>The Sudoku object and generate_board\<close>

text \<open>
  The attributes of a \<open>Sudoku\<close> object. The methods above take \<open>self.size\<close> as their
  first argument \<open>n\<close>; the methods below take and return the object.
\<close>

record sudoku =
  self_size :: nat
  self_board :: board
  self_solution :: "board option"
  self_original_puzzle :: "board option"

text \<open>\<open>__init__\<close>\<close>

definition sudoku_init :: "nat \<Rightarrow> sudoku" where
  "sudoku_init n =
     \<lparr>self_size = n, self_board = empty_board n, self_solution = None,
      self_original_puzzle = None\<rparr>"

definition generate_board :: "sudoku \<Rightarrow> rng \<Rightarrow> error + (sudoku \<times> rng)" where
  "generate_board s rng =
     (let s0 = s\<lparr>self_board := empty_board (self_size s)\<rparr> in
      case fill_board (self_size s0) (self_board s0) rng of
        Inl e \<Rightarrow> Inl e
      | Inr (filled, board1, rng1) \<Rightarrow>
          Inr (s0\<lparr>self_board := board1, self_solution := Some (copy_board board1)\<rparr>, rng1))"

text \<open>
  \<open>_count_solutions()\<close> called without a board: the recursion runs on a row-by-row copy
  of \<open>self.board\<close>, a local of the call, and no attribute of the object is assigned.
\<close>

definition count_solutions_self :: "sudoku \<Rightarrow> error + (int \<times> sudoku)" where
  "count_solutions_self s =
     (case count_solutions (self_size s) (copy_board (self_board s)) of
        Inl e \<Rightarrow> Inl e
      | Inr (k, work) \<Rightarrow> Inr (k, s))"

section \<open>generate_puzzle\<close>

definition squares_to_remove :: "string \<Rightarrow> int" where
  "squares_to_remove difficulty =
     (if difficulty = ''easy'' then 40
      else if difficulty = ''medium'' then 50
      else if difficulty = ''hard'' then 60
      else 40)"

text \<open>\<open>[(r, c) for r in range(self.size) for c in range(self.size)]\<close>\<close>

definition all_cells :: "nat \<Rightarrow> (nat \<times> nat) list" where
  "all_cells n = [(r, c). r \<leftarrow> [0..<n], c \<leftarrow> [0..<n]]"

text \<open>The \<open>for r, c in cells\<close> loop, with \<open>squares_to_remove\<close> as \<open>to_remove\<close>.\<close>

fun remove_loop :: "sudoku \<Rightarrow> int \<Rightarrow> int \<Rightarrow> (nat \<times> nat) list \<Rightarrow> error + (sudoku \<times> int)" where
  "remove_loop s to_remove removed_count [] = Inr (s, removed_count)"
| "remove_loop s to_remove removed_count ((r, c) # cells) =
     (if removed_count \<ge> to_remove then Inr (s, removed_count)
      else
        case get_cell (self_board s) r c of
          Inl e \<Rightarrow> Inl e
        | Inr temp \<Rightarrow>
            (case set_cell (self_board s) r c 0 of
               Inl e \<Rightarrow> Inl e
             | Inr board1 \<Rightarrow>
                 (case count_solutions_self (s\<lparr>self_board := board1\<rparr>) of
                    Inl e \<Rightarrow> Inl e
                  | Inr (solutions, s1) \<Rightarrow>
                      if solutions \<noteq> 1 then
                        (case set_cell (self_board s1) r c temp of
                           Inl e \<Rightarrow> Inl e
                         | Inr board2 \<Rightarrow>
                             remove_loop (s1\<lparr>self_board := board2\<rparr>) to_remove removed_count cells)
                      else remove_loop s1 to_remove (removed_count + 1) cells)))"

definition generate_puzzle :: "sudoku \<Rightarrow> string \<Rightarrow> rng \<Rightarrow> error + (sudoku \<times> rng)" where
  "generate_puzzle s difficulty rng =
     (case generate_board s rng of
        Inl e \<Rightarrow> Inl e
      | Inr (s1, rng1) \<Rightarrow>
          (case shuffle (all_cells (self_size s1)) rng1 of
             (cells, rng2) \<Rightarrow>
               (case remove_loop s1 (squares_to_remove difficulty) 0 cells of
                  Inl e \<Rightarrow> Inl e
                | Inr (s2, removed_count) \<Rightarrow>
                    Inr (s2\<lparr>self_original_puzzle := Some (copy_board (self_board s2))\<rparr>, rng2))))"

section \<open>A move of the game loop\<close>

text \<open>
  The body of the \<open>'m'\<close> action of \<open>play\<close> once the three numbers are read, \<open>row\<close> and
  \<open>col\<close> being the indices from 0 that the code computes from the input: the range
  check, the lock on the cells of the original puzzle, the validity check and the write.
  The outcome stands for the message printed (none when the move is made).
\<close>

datatype move_outcome = Moved | Locked | Invalid_move | Invalid_input

definition make_move :: "sudoku \<Rightarrow> int \<Rightarrow> int \<Rightarrow> int \<Rightarrow> error + (move_outcome \<times> sudoku)" where
  "make_move s row col val =
     (if 0 \<le> row \<and> row < int (self_size s) \<and> 0 \<le> col \<and> col < int (self_size s)
         \<and> 1 \<le> val \<and> val \<le> int (self_size s)
      then
        (case self_original_puzzle s of
           None \<Rightarrow> Inl TypeError
         | Some original \<Rightarrow>
             (case get_cell original (nat row) (nat col) of
                Inl e \<Rightarrow> Inl e
              | Inr x \<Rightarrow>
                  if x \<noteq> 0 then Inr (Locked, s)
                  else
                    (case is_valid (self_size s) (self_board s) (nat row) (nat col) val of
                       Inl e \<Rightarrow> Inl e
                     | Inr True \<Rightarrow>
                         (case set_cell (self_board s) (nat row) (nat col) val of
                            Inl e \<Rightarrow> Inl e
                          | Inr board1 \<Rightarrow> Inr (Moved, s\<lparr>self_board := board1\<rparr>))
                     | Inr False \<Rightarrow> Inr (Invalid_move, s))))
      else Inr (Invalid_input, s))"

section \<open>The data model of the specification\<close>

text \<open>An \<open>n\<close> by \<open>n\<close> grid: \<open>n\<close> rows of \<open>n\<close> cells each.\<close>

definition wf_board :: "nat \<Rightarrow> board \<Rightarrow> bool" where
  "wf_board n board \<longleftrightarrow> length board = n \<and> (\<forall>row \<in> set board. length row = n)"

text \<open>
  The value \<open>v\<close> occurs at a cell other than \<open>(row, col)\<close> in its row, in its column or in
  the aligned box of side \<open>bs\<close> that contains it.
\<close>

definition occurs_elsewhere :: "nat \<Rightarrow> nat \<Rightarrow> board \<Rightarrow> nat \<Rightarrow> nat \<Rightarrow> int \<Rightarrow> bool" where
  "occurs_elsewhere bs n board row col v \<longleftrightarrow>
     (\<exists>r \<in> {0..<n}. \<exists>c \<in> {0..<n}.
        (r, c) \<noteq> (row, col) \<and>
        (r = row \<or> c = col \<or> (r div bs = row div bs \<and> c div bs = col div bs)) \<and>
        board ! r ! c = v)"

text \<open>
  The data model of the specification. A grid is an \<open>n\<close> by \<open>n\<close> board whose cells are
  empty or hold a value from 1 to \<open>n\<close>. A board is valid when no non-empty value occurs
  twice in a row, a column or a box (the aligned 3 by 3 box, the box of a 9 by 9 grid),
  complete when no cell is empty. A completion of a board is a complete valid grid that
  agrees with the board on its non-empty cells.
\<close>

definition in_range :: "nat \<Rightarrow> board \<Rightarrow> bool" where
  "in_range n board \<longleftrightarrow> (\<forall>row \<in> set board. \<forall>x \<in> set row. 0 \<le> x \<and> x \<le> int n)"

definition grid :: "nat \<Rightarrow> board \<Rightarrow> bool" where
  "grid n board \<longleftrightarrow> wf_board n board \<and> in_range n board"

definition valid_board :: "nat \<Rightarrow> board \<Rightarrow> bool" where
  "valid_board n board \<longleftrightarrow>
     (\<forall>r \<in> {0..<n}. \<forall>c \<in> {0..<n}.
        board ! r ! c \<noteq> 0 \<longrightarrow> \<not> occurs_elsewhere 3 n board r c (board ! r ! c))"

definition complete :: "nat \<Rightarrow> board \<Rightarrow> bool" where
  "complete n board \<longleftrightarrow> (\<forall>r \<in> {0..<n}. \<forall>c \<in> {0..<n}. board ! r ! c \<noteq> 0)"

definition extends :: "nat \<Rightarrow> board \<Rightarrow> board \<Rightarrow> bool" where
  "extends n board s \<longleftrightarrow>
     (\<forall>r \<in> {0..<n}. \<forall>c \<in> {0..<n}. board ! r ! c \<noteq> 0 \<longrightarrow> s ! r ! c = board ! r ! c)"

definition completion :: "nat \<Rightarrow> board \<Rightarrow> board \<Rightarrow> bool" where
  "completion n board s \<longleftrightarrow> grid n s \<and> complete n s \<and> valid_board n s \<and> extends n board s"

definition completions :: "nat \<Rightarrow> board \<Rightarrow> board set" where
  "completions n board = {s. completion n board s}"

text \<open>Two distinct cells that share a row, a column or a box of side \<open>bs\<close>.\<close>

definition peer :: "nat \<Rightarrow> nat \<times> nat \<Rightarrow> nat \<times> nat \<Rightarrow> bool" where
  "peer bs p q \<longleftrightarrow>
     q \<noteq> p \<and> (fst q = fst p \<or> snd q = snd p \<or>
       (fst q div bs = fst p div bs \<and> snd q div bs = snd p div bs))"

text \<open>
  The values of a row, of a column and of the aligned 3 by 3 box \<open>(br, bc)\<close>, and the
  solved boards: complete, with every row, column and box a permutation of 1 to \<open>n\<close>.
\<close>

definition row_values :: "nat \<Rightarrow> board \<Rightarrow> nat \<Rightarrow> int list" where
  "row_values n board r = map (\<lambda>c. board ! r ! c) [0..<n]"

definition col_values :: "nat \<Rightarrow> board \<Rightarrow> nat \<Rightarrow> int list" where
  "col_values n board c = map (\<lambda>r. board ! r ! c) [0..<n]"

definition box_values :: "board \<Rightarrow> nat \<Rightarrow> nat \<Rightarrow> int list" where
  "box_values board br bc =
     [board ! r ! c. r \<leftarrow> [3 * br..<3 * br + 3], c \<leftarrow> [3 * bc..<3 * bc + 3]]"

definition solved :: "nat \<Rightarrow> board \<Rightarrow> bool" where
  "solved n board \<longleftrightarrow>
     complete n board \<and>
     (\<forall>r \<in> {0..<n}. mset (row_values n board r) = mset (candidates n)) \<and>
     (\<forall>c \<in> {0..<n}. mset (col_values n board c) = mset (candidates n)) \<and>
     (\<forall>br \<in> {0..<n div 3}. \<forall>bc \<in> {0..<n div 3}.
        mset (box_values board br bc) = mset (candidates n))"

section \<open>Example boards\<close>

definition solved_example :: board where
  "solved_example =
    [[5, 3, 4, 6, 7, 8, 9, 1, 2],
     [6, 7, 2, 1, 9, 5, 3, 4, 8],
     [1, 9, 8, 3, 4, 2, 5, 6, 7],
     [8, 5, 9, 7, 6, 1, 4, 2, 3],
     [4, 2, 6, 8, 5, 3, 7, 9, 1],
     [7, 1, 3, 9, 2, 4, 8, 5, 6],
     [9, 6, 1, 5, 3, 7, 2, 8, 4],
     [2, 8, 7, 4, 1, 9, 6, 3, 5],
     [3, 4, 5, 2, 8, 6, 1, 7, 9]]"

definition small_example :: board where
  "small_example =
    [[0, 0, 0, 0],
     [0, 0, 0, 0],
     [0, 0, 1, 0],
     [0, 0, 0, 0]]"

definition ones_example :: board where
  "ones_example = replicate 9 (replicate 9 1)"

definition puzzle_example :: board where
  "puzzle_example =
    [[0, 3, 4, 6, 7, 8, 9, 1, 2],
     [6, 7, 2, 1, 9, 5, 3, 4, 8],
     [1, 9, 8, 3, 4, 2, 5, 6, 7],
     [8, 5, 9, 7, 6, 1, 4, 2, 3],
     [4, 2, 6, 8, 0, 3, 7, 9, 1],
     [7, 1, 3, 9, 2, 4, 8, 5, 6],
     [9, 6, 1, 5, 3, 7, 2, 8, 4],
     [2, 8, 7, 4, 1, 9, 6, 3, 5],
     [3, 4, 5, 2, 8, 6, 1, 7, 9]]"

definition stuck_example :: board where
  "stuck_example =
    [[0, 3, 4, 6, 7, 8, 9, 1, 2],
     [5, 7, 2, 1, 9, 0, 3, 4, 8],
     [1, 9, 8, 3, 4, 2, 5, 6, 7],
     [8, 5, 9, 7, 6, 1, 4, 2, 3],
     [4, 2, 6, 8, 5, 3, 7, 9, 1],
     [7, 1, 3, 9, 2, 4, 8, 5, 6],
     [9, 6, 1, 5, 3, 7, 2, 8, 4],
     [2, 8, 7, 4, 1, 9, 6, 3, 5],
     [3, 4, 5, 2, 8, 6, 1, 7, 9]]"

section \<open>Auxiliary notions\<close>

text \<open>
  \<open>upd\<close> is the board after one successful cell write; \<open>zeros\<close> counts the empty cells
  of a board.
\<close>

definition upd :: "board \<Rightarrow> nat \<Rightarrow> nat \<Rightarrow> int \<Rightarrow> board" where
  "upd board r c v = board[r := (board ! r)[c := v]]"

definition zrow :: "int list \<Rightarrow> nat" where
  "zrow row = length (filter (\<lambda>x. x = 0) row)"

definition zeros :: "board \<Rightarrow> nat" where
  "zeros board = sum_list (map zrow board)"

definition keeps_cells :: "board \<Rightarrow> board \<Rightarrow> bool" where
  "keeps_cells board board' \<longleftrightarrow>
     map length board' = map length board \<and>
     (\<forall>r<length board. \<forall>c<length (board ! r). board ! r ! c \<noteq> 0 \<longrightarrow> board' ! r ! c = board ! r ! c)"

definition keeps_cells_but :: "nat \<Rightarrow> nat \<Rightarrow> board \<Rightarrow> board \<Rightarrow> bool" where
  "keeps_cells_but row col board board' \<longleftrightarrow>
     map length board' = map length board \<and>
     (\<forall>r<length board. \<forall>c<length (board ! r).
        (r, c) \<noteq> (row, col) \<longrightarrow> board ! r ! c \<noteq> 0 \<longrightarrow> board' ! r ! c = board ! r ! c)"

text \<open>
  The completions reached through the candidates \<open>nums\<close> at the cell \<open>(r, c)\<close>: those of
  the boards obtained by placing a candidate that passes the validity check.
\<close>

definition branch :: "nat \<Rightarrow> board \<Rightarrow> nat \<Rightarrow> nat \<Rightarrow> int list \<Rightarrow> board set" where
  "branch n board r c nums =
     (\<Union>v \<in> {v \<in> set nums. \<not> occurs_elsewhere 3 n board r c v}. completions n (upd board r c v))"

text \<open>
  \<open>counts k m\<close>: the count \<open>k\<close> returned for a board with \<open>m\<close> completions never exceeds
  \<open>m\<close> and is at least \<open>min 2 m\<close>; so it is 0, 1 or at least 2 exactly as \<open>m\<close> is.
\<close>

definition counts :: "int \<Rightarrow> nat \<Rightarrow> bool" where
  "counts k m \<longleftrightarrow> k \<le> int m \<and> int (min 2 m) \<le> k"

text \<open>
  A cell is stuck when clearing it leaves a board with at least two completions.
\<close>

definition stuck :: "nat \<Rightarrow> board \<Rightarrow> nat \<Rightarrow> nat \<Rightarrow> bool" where
  "stuck n board r c \<longleftrightarrow> 2 \<le> card (completions n (upd board r c 0))"

text \<open>
  What the removal loop establishes from the board \<open>b\<close> and the count \<open>k\<close>, ending with
  the board \<open>b'\<close> and the count \<open>k'\<close>: the board stays a valid grid whose only completion
  is \<open>sol\<close>, cells are only cleared, each increment of the count is one more empty
  cell, the count does not pass the target \<open>t\<close>, and if the target is not reached then
  every visited cell that is still filled is stuck.
\<close>

definition removal_post ::
  "board \<Rightarrow> int \<Rightarrow> int \<Rightarrow> (nat \<times> nat) list \<Rightarrow> board \<Rightarrow> board \<Rightarrow> int \<Rightarrow> bool" where
  "removal_post sol t k cells b b' k' \<longleftrightarrow>
      grid 9 b' \<and> valid_board 9 b' \<and> completions 9 b' = {sol} \<and>
      extends 9 b' b \<and>
      int (zeros b') = int (zeros b) + (k' - k) \<and>
      (k \<le> t \<longrightarrow> k' \<le> t) \<and>
      (k' < t \<longrightarrow> (\<forall>p \<in> set cells. b' ! fst p ! snd p \<noteq> 0 \<longrightarrow> stuck 9 b' (fst p) (snd p))) \<and>
      (\<forall>r<9. \<forall>c<9. (r, c) \<notin> set cells \<longrightarrow> b' ! r ! c = b ! r ! c)"

section \<open>Termination of the searches\<close>

text \<open>
  Every recursive call of a search works on a board with one empty cell fewer. The
  inner recursive call of each loop is nested in the outer one, so each termination
  proof rests on what the search leaves on the board when it fails.
\<close>

subsection \<open>solve\<close>

lemma zrow_update:
  "c < length row \<Longrightarrow>
   zrow (row[c := v]) + (if row ! c = 0 then 1 else 0) = zrow row + (if v = 0 then 1 else 0)"
proof (induction row arbitrary: c)
  case Nil then show ?case by simp
next
  case (Cons x xs)
  show ?case
  proof (cases c)
    case 0 then show ?thesis by (simp add: zrow_def)
  next
    case (Suc k)
    with Cons.prems have "k < length xs" by simp
    from Cons.IH[OF this] show ?thesis using Suc by (auto simp: zrow_def split: if_splits)
  qed
qed

lemma sum_list_map_update:
  "r < length xs \<Longrightarrow>
   sum_list (map f (xs[r := y])) + f (xs ! r) = sum_list (map f xs) + (f y :: nat)"
proof (induction xs arbitrary: r)
  case Nil then show ?case by simp
next
  case (Cons x xs)
  show ?case
  proof (cases r)
    case 0 then show ?thesis by simp
  next
    case (Suc k)
    with Cons.prems have "k < length xs" by simp
    from Cons.IH[OF this] show ?thesis using Suc by simp
  qed
qed

lemma zeros_upd:
  assumes "r < length board" "c < length (board ! r)"
  shows "zeros (upd board r c v) + (if board ! r ! c = 0 then 1 else 0)
         = zeros board + (if v = 0 then 1 else 0)"
proof -
  have a: "zeros (upd board r c v) + zrow (board ! r) = zeros board + zrow ((board ! r)[c := v])"
    unfolding zeros_def upd_def using sum_list_map_update[OF assms(1), of zrow] by simp
  have b: "zrow ((board ! r)[c := v]) + (if board ! r ! c = 0 then 1 else 0)
           = zrow (board ! r) + (if v = 0 then 1 else 0)"
    using zrow_update[OF assms(2)] by simp
  from a b show ?thesis by (simp split: if_splits)
qed

lemma upd_upd: "upd (upd board r c v) r c w = upd board r c w"
  by (cases "r < length board") (simp_all add: upd_def list_update_beyond)

lemma upd_same: "board ! r ! c = v \<Longrightarrow> upd board r c v = board"
  by (auto simp: upd_def)

lemma set_cell_Inr:
  "set_cell board r c v = Inr b' \<longleftrightarrow> r < length board \<and> c < length (board ! r) \<and> b' = upd board r c v"
  by (auto simp: set_cell_def upd_def)

lemma get_cell_Inr:
  "get_cell board r c = Inr x \<longleftrightarrow> r < length board \<and> c < length (board ! r) \<and> x = board ! r ! c"
  by (auto simp: get_cell_def)

lemma find_in_row_Some:
  "find_in_row board r cs = Inr (Some (r', c')) \<Longrightarrow>
   r' = r \<and> c' \<in> set cs \<and> r < length board \<and> c' < length (board ! r) \<and> board ! r ! c' = 0"
  by (induction cs) (auto simp: get_cell_Inr split: sum.splits if_splits)

lemma find_in_rows_Some:
  "find_in_rows n board rs = Inr (Some (r, c)) \<Longrightarrow>
   r \<in> set rs \<and> c < n \<and> r < length board \<and> c < length (board ! r) \<and> board ! r ! c = 0"
  by (induction rs) (auto dest: find_in_row_Some split: sum.splits option.splits)

lemma find_empty_cell_Some:
  "find_empty_cell n board = Inr (Some (r, c)) \<Longrightarrow>
   r < n \<and> c < n \<and> r < length board \<and> c < length (board ! r) \<and> board ! r ! c = 0"
  unfolding find_empty_cell_def by (auto dest: find_in_rows_Some)

lemma measure_enter:
  assumes "find_empty_cell n board = Inr (Some (row, col))" "0 \<notin> set nums"
  shows "2 * (zeros (upd board row col 1) + (if 0 \<in> set nums then 1 else 0)) + 1
         < 2 * zeros board"
proof -
  from find_empty_cell_Some[OF assms(1)]
  have r: "row < length board" "col < length (board ! row)" "board ! row ! col = 0" by auto
  from zeros_upd[OF r(1,2), of 1] r(3) have "zeros (upd board row col 1) + 1 = zeros board"
    by simp
  with assms(2) show ?thesis by simp
qed

lemma measure_place:
  assumes "set_cell board row col num = Inr board1"
  shows "2 * zeros board1
         < 2 * (zeros (upd board row col 1) + (if 0 \<in> set (num # nums) then 1 else 0)) + 1"
proof -
  from assms have r: "row < length board" "col < length (board ! row)"
    "board1 = upd board row col num"
    by (auto simp: set_cell_Inr)
  from zeros_upd[OF r(1,2), of num] zeros_upd[OF r(1,2), of 1] r(3)
  show ?thesis by (auto split: if_splits)
qed

lemma candidates_nonzero: "0 \<notin> set (candidates n)"
  by (auto simp: candidates_def)

lemma solve_restore_partial:
  "solve_solve_loop_dom (Inl (n, board)) \<Longrightarrow> solve n board = Inr (False, b') \<Longrightarrow> b' = board"
  "solve_solve_loop_dom (Inr (n, board, row, col, nums)) \<Longrightarrow>
     solve_loop n board row col nums = Inr (False, b') \<Longrightarrow>
     b' = board \<or> b' = upd board row col 0"
proof (induction n board and n board row col nums arbitrary: b' and b' rule: solve_solve_loop.pinduct)
  case (1 n board)
  then show ?case
    by (fastforce simp: solve.psimps upd_same split: sum.splits option.splits
        dest: find_empty_cell_Some)
next
  case (2 n board row col)
  then show ?case by (simp add: solve_loop.psimps)
next
  case (3 n board row col num nums)
  from "3.prems" "3.hyps" have res:
    "(case is_valid n board row col num of
        Inl e \<Rightarrow> Inl e
      | Inr False \<Rightarrow> solve_loop n board row col nums
      | Inr True \<Rightarrow>
          (case set_cell board row col num of
             Inl e \<Rightarrow> Inl e
           | Inr board1 \<Rightarrow>
               (case solve n board1 of
                  Inl e \<Rightarrow> Inl e
                | Inr (True, board2) \<Rightarrow> Inr (True, board2)
                | Inr (False, board2) \<Rightarrow>
                    (case set_cell board2 row col 0 of
                       Inl e \<Rightarrow> Inl e
                     | Inr board3 \<Rightarrow> solve_loop n board3 row col nums)))) = Inr (False, b')"
    by (simp add: solve_loop.psimps)
  show ?case
  proof (cases "is_valid n board row col num")
    case (Inl e)
    with res show ?thesis by simp
  next
    case (Inr ok)
    show ?thesis
    proof (cases ok)
      case False
      with Inr res have "solve_loop n board row col nums = Inr (False, b')" by simp
      with "3.IH"(3) Inr False show ?thesis by simp
    next
      case True
      with Inr res obtain board1 where b1: "set_cell board row col num = Inr board1"
        by (cases "set_cell board row col num") auto
      with Inr True res obtain ok2 board2 where s1: "solve n board1 = Inr (ok2, board2)"
        by (cases "solve n board1") auto
      with Inr True res b1 have ok2: "ok2 = False" by (cases ok2) auto
      with Inr True res b1 s1 obtain board3 where b3: "set_cell board2 row col 0 = Inr board3"
        by (cases "set_cell board2 row col 0") auto
      from Inr True res b1 s1 ok2 b3 have l: "solve_loop n board3 row col nums = Inr (False, b')"
        by simp
      from "3.IH"(1) Inr True b1 s1 ok2 have "board2 = board1" by simp
      moreover from "3.IH"(2) Inr True b1 s1 ok2 b3 l
      have "b' = board3 \<or> b' = upd board3 row col 0" by simp
      ultimately show ?thesis using b1 b3 by (auto simp: set_cell_Inr upd_upd)
    qed
  qed
qed

lemma solve_total: "All solve_solve_loop_dom"
proof (relation "measures
   [case_sum (\<lambda>(n, board). 2 * zeros board)
      (\<lambda>(n, board, row, col, nums).
          2 * (zeros (upd board row col 1) + (if 0 \<in> set nums then 1 else 0)) + 1),
    case_sum (\<lambda>_. 0) (\<lambda>(n, board, row, col, nums). length nums)]", goal_cases)
  case 1
  show ?case by simp
next
  case (2 n board p q row col)
  then have "find_empty_cell n board = Inr (Some (row, col))" by simp
  from measure_enter[OF this candidates_nonzero] show ?case by simp
next
  case (3 n board row col num nums ok board1)
  from measure_place[OF 3(3), of nums] show ?case by simp
next
  case (4 n board row col num nums ok board1 res ok2 board2 board3)
  then have "board2 = board1" using solve_restore_partial(1) by auto
  with 4 have "upd board3 row col 1 = upd board row col 1"
    by (auto simp: set_cell_Inr upd_upd)
  then show ?case by auto
next
  case 5
  show ?case by auto
qed

termination solve
  by (rule solve_total)

lemma solve_False_unchanged: "solve n board = Inr (False, board') \<Longrightarrow> board' = board"
  using solve_restore_partial(1) solve_total by blast

subsection \<open>_count_solutions\<close>

lemma count_restore_partial:
  "count_solutions_count_loop_dom (Inl (n, board)) \<Longrightarrow>
     count_solutions n board = Inr (k, b') \<Longrightarrow> b' = board"
  "count_solutions_count_loop_dom (Inr (n, board, row, col, nums, cnt)) \<Longrightarrow>
     count_loop n board row col nums cnt = Inr (k, b') \<Longrightarrow>
     b' = board \<or> b' = upd board row col 0"
proof (induction n board and n board row col nums cnt arbitrary: k b' and k b'
    rule: count_solutions_count_loop.pinduct)
  case (1 n board)
  then show ?case
    by (fastforce simp: count_solutions.psimps upd_same split: sum.splits option.splits
        dest: find_empty_cell_Some)
next
  case (2 n board row col cnt)
  then show ?case by (simp add: count_loop.psimps)
next
  case (3 n board row col num nums cnt)
  from "3.prems" "3.hyps" have res:
    "(case is_valid n board row col num of
        Inl e \<Rightarrow> Inl e
      | Inr False \<Rightarrow> count_loop n board row col nums cnt
      | Inr True \<Rightarrow>
          (case set_cell board row col num of
             Inl e \<Rightarrow> Inl e
           | Inr board1 \<Rightarrow>
               (case count_solutions n board1 of
                  Inl e \<Rightarrow> Inl e
                | Inr (k, board2) \<Rightarrow>
                    (case set_cell board2 row col 0 of
                       Inl e \<Rightarrow> Inl e
                     | Inr board3 \<Rightarrow>
                         if cnt + k > 1 then Inr (cnt + k, board3)
                         else count_loop n board3 row col nums (cnt + k))))) = Inr (k, b')"
    by (simp add: count_loop.psimps)
  show ?case
  proof (cases "is_valid n board row col num")
    case (Inl e)
    with res show ?thesis by simp
  next
    case (Inr ok)
    show ?thesis
    proof (cases ok)
      case False
      with Inr res have "count_loop n board row col nums cnt = Inr (k, b')" by simp
      with "3.IH"(3) Inr False show ?thesis by simp
    next
      case True
      with Inr res obtain board1 where b1: "set_cell board row col num = Inr board1"
        by (cases "set_cell board row col num") auto
      with Inr True res obtain k1 board2 where s1: "count_solutions n board1 = Inr (k1, board2)"
        by (cases "count_solutions n board1") auto
      with Inr True res b1 obtain board3 where b3: "set_cell board2 row col 0 = Inr board3"
        by (cases "set_cell board2 row col 0") auto
      from "3.IH"(1) Inr True b1 s1 have "board2 = board1" by simp
      with b1 b3 have b3': "board3 = upd board row col 0"
        by (auto simp: set_cell_Inr upd_upd)
      show ?thesis
      proof (cases "cnt + k1 > 1")
        case True
        with Inr \<open>ok\<close> res b1 s1 b3 have "b' = board3" by simp
        with b3' show ?thesis by simp
      next
        case False
        with Inr True res b1 s1 b3
        have l: "count_loop n board3 row col nums (cnt + k1) = Inr (k, b')" by simp
        from "3.IH"(2) Inr True b1 s1 b3 False l
        have "b' = board3 \<or> b' = upd board3 row col 0" by simp
        with b3' show ?thesis by (auto simp: upd_upd)
      qed
    qed
  qed
qed

lemma count_total: "All count_solutions_count_loop_dom"
proof (relation "measures
   [case_sum (\<lambda>(n, board). 2 * zeros board)
      (\<lambda>(n, board, row, col, nums, cnt).
          2 * (zeros (upd board row col 1) + (if 0 \<in> set nums then 1 else 0)) + 1),
    case_sum (\<lambda>_. 0) (\<lambda>(n, board, row, col, nums, cnt). length nums)]", goal_cases)
  case 1
  show ?case by simp
next
  case (2 n board p q row col)
  then have "find_empty_cell n board = Inr (Some (row, col))" by simp
  from measure_enter[OF this candidates_nonzero] show ?case by simp
next
  case (3 n board row col num nums cnt ok board1)
  from measure_place[OF 3(3), of nums] show ?case by simp
next
  case (4 n board row col num nums cnt ok board1 res k board2 board3)
  then have "board2 = board1" using count_restore_partial(1) by auto
  with 4 have "upd board3 row col 1 = upd board row col 1"
    by (auto simp: set_cell_Inr upd_upd)
  then show ?case by auto
next
  case 5
  show ?case by auto
qed

termination count_solutions
  by (rule count_total)

lemma count_solutions_unchanged: "count_solutions n board = Inr (k, board') \<Longrightarrow> board' = board"
  using count_restore_partial(1) count_total by blast

subsection \<open>random.shuffle returns a permutation\<close>

lemma randbelow_less: "0 < k \<Longrightarrow> fst (randbelow k rng) < k"
  by (simp add: randbelow_def split: list.splits)

lemma shuffle_from_mset:
  "k < length xs \<Longrightarrow> mset (fst (shuffle_from k xs rng)) = mset xs"
proof (induction k arbitrary: xs rng)
  case 0
  show ?case by simp
next
  case (Suc k)
  obtain j rng' where j: "randbelow (Suc k + 1) rng = (j, rng')" by (cases "randbelow (Suc k + 1) rng")
  with randbelow_less[of "Suc k + 1" rng] have "j < Suc k + 1" by simp
  with Suc.prems have jl: "j < length xs" by simp
  let ?ys = "xs[Suc k := xs ! j, j := xs ! Suc k]"
  have "mset ?ys = mset xs" using Suc.prems jl by (simp add: mset_swap)
  moreover have "k < length ?ys" using Suc.prems by simp
  ultimately show ?case using Suc.IH[of ?ys rng'] j by simp
qed

lemma shuffle_mset: "mset (fst (shuffle xs rng)) = mset xs"
proof (cases xs)
  case Nil
  then show ?thesis by (simp add: shuffle_def)
next
  case (Cons x ys)
  then show ?thesis unfolding shuffle_def by (intro shuffle_from_mset) simp
qed

lemma shuffle_set: "shuffle xs rng = (ys, rng') \<Longrightarrow> set ys = set xs"
  using shuffle_mset[of xs rng] by (metis fst_conv set_mset_mset)

subsection \<open>_fill_board\<close>

lemma fill_restore_partial:
  "fill_board_fill_loop_dom (Inl (n, board, rng)) \<Longrightarrow>
     fill_board n board rng = Inr (False, b', rng') \<Longrightarrow> b' = board"
  "fill_board_fill_loop_dom (Inr (n, board, row, col, nums, rng)) \<Longrightarrow>
     fill_loop n board row col nums rng = Inr (False, b', rng') \<Longrightarrow>
     b' = board \<or> b' = upd board row col 0"
proof (induction n board rng and n board row col nums rng arbitrary: b' rng' and b' rng'
    rule: fill_board_fill_loop.pinduct)
  case (1 n board rng)
  then show ?case
    by (fastforce simp: fill_board.psimps upd_same split: sum.splits option.splits prod.splits
        dest: find_empty_cell_Some)
next
  case (2 n board row col rng)
  then show ?case by (simp add: fill_loop.psimps)
next
  case (3 n board row col num nums rng)
  from "3.prems" "3.hyps" have res:
    "(case is_valid n board row col num of
        Inl e \<Rightarrow> Inl e
      | Inr False \<Rightarrow> fill_loop n board row col nums rng
      | Inr True \<Rightarrow>
          (case set_cell board row col num of
             Inl e \<Rightarrow> Inl e
           | Inr board1 \<Rightarrow>
               (case fill_board n board1 rng of
                  Inl e \<Rightarrow> Inl e
                | Inr (True, board2, rng2) \<Rightarrow> Inr (True, board2, rng2)
                | Inr (False, board2, rng2) \<Rightarrow>
                    (case set_cell board2 row col 0 of
                       Inl e \<Rightarrow> Inl e
                     | Inr board3 \<Rightarrow> fill_loop n board3 row col nums rng2)))) = Inr (False, b', rng')"
    by (simp add: fill_loop.psimps)
  show ?case
  proof (cases "is_valid n board row col num")
    case (Inl e)
    with res show ?thesis by simp
  next
    case (Inr ok)
    show ?thesis
    proof (cases ok)
      case False
      with Inr res have "fill_loop n board row col nums rng = Inr (False, b', rng')" by simp
      with "3.IH"(3) Inr False show ?thesis by simp
    next
      case True
      with Inr res obtain board1 where b1: "set_cell board row col num = Inr board1"
        by (cases "set_cell board row col num") auto
      with Inr True res obtain ok2 board2 rng2
        where s1: "fill_board n board1 rng = Inr (ok2, board2, rng2)"
        by (cases "fill_board n board1 rng") auto
      with Inr True res b1 have ok2: "ok2 = False" by (cases ok2) auto
      with Inr True res b1 s1 obtain board3 where b3: "set_cell board2 row col 0 = Inr board3"
        by (cases "set_cell board2 row col 0") auto
      from Inr True res b1 s1 ok2 b3
      have l: "fill_loop n board3 row col nums rng2 = Inr (False, b', rng')" by simp
      from "3.IH"(1) Inr True b1 s1 ok2 have "board2 = board1" by simp
      moreover from "3.IH"(2) Inr True b1 s1 ok2 b3 l
      have "b' = board3 \<or> b' = upd board3 row col 0" by simp
      ultimately show ?thesis using b1 b3 by (auto simp: set_cell_Inr upd_upd)
    qed
  qed
qed

lemma fill_total: "All fill_board_fill_loop_dom"
proof (relation "measures
   [case_sum (\<lambda>(n, board, rng). 2 * zeros board)
      (\<lambda>(n, board, row, col, nums, rng).
          2 * (zeros (upd board row col 1) + (if 0 \<in> set nums then 1 else 0)) + 1),
    case_sum (\<lambda>_. 0) (\<lambda>(n, board, row, col, nums, rng). length nums)]", goal_cases)
  case 1
  show ?case by simp
next
  case (2 n board rng p q row col nums rng1)
  then have f: "find_empty_cell n board = Inr (Some (row, col))" by simp
  from 2 have "set nums = set (candidates n)" using shuffle_set[of "candidates n" rng nums rng1]
    by simp
  with candidates_nonzero have "0 \<notin> set nums" by simp
  from measure_enter[OF f this] show ?case by simp
next
  case (3 n board row col num nums rng ok board1)
  from measure_place[OF 3(3), of nums] show ?case by simp
next
  case (4 n board row col num nums rng ok board1 res ok2 rest board2 rng2 board3)
  then have "board2 = board1" using fill_restore_partial(1) by auto
  with 4 have "upd board3 row col 1 = upd board row col 1"
    by (auto simp: set_cell_Inr upd_upd)
  then show ?case by auto
next
  case 5
  show ?case by auto
qed

termination fill_board
  by (rule fill_total)

lemma fill_board_False_unchanged:
  "fill_board n board rng = Inr (False, board', rng') \<Longrightarrow> board' = board"
  using fill_restore_partial(1) fill_total by blast

section \<open>The scan for the next empty cell\<close>

lemma wf_get_cell: "wf_board n board \<Longrightarrow> r < n \<Longrightarrow> c < n \<Longrightarrow> get_cell board r c = Inr (board ! r ! c)"
  by (simp add: wf_board_def get_cell_def)

lemma find_in_row_find:
  "r < length board \<Longrightarrow> \<forall>c \<in> set cs. c < length (board ! r) \<Longrightarrow>
   find_in_row board r cs = Inr (map_option (Pair r) (List.find (\<lambda>c. board ! r ! c = 0) cs))"
  by (induction cs) (simp_all add: get_cell_def)

lemma find_in_row_upt:
  assumes "wf_board n board" "r < n"
  shows "find_in_row board r [0..<n] =
         Inr (map_option (Pair r) (List.find (\<lambda>c. board ! r ! c = 0) [0..<n]))"
  using assms by (intro find_in_row_find) (auto simp: wf_board_def)

lemma find_in_rows_find:
  assumes "wf_board n board" "\<forall>r \<in> set rs. r < n"
  shows "find_in_rows n board rs =
     (case List.find (\<lambda>r. \<exists>c \<in> {0..<n}. board ! r ! c = 0) rs of
        None \<Rightarrow> Inr None
      | Some r \<Rightarrow> Inr (map_option (Pair r) (List.find (\<lambda>c. board ! r ! c = 0) [0..<n])))"
  using assms(2)
proof (induction rs)
  case Nil
  show ?case by simp
next
  case (Cons r rs)
  then have r: "r < n" by simp
  show ?case
  proof (cases "\<exists>c \<in> {0..<n}. board ! r ! c = 0")
    case True
    then obtain c where "List.find (\<lambda>c. board ! r ! c = 0) [0..<n] = Some c"
      by (cases "List.find (\<lambda>c. board ! r ! c = 0) [0..<n]") (auto simp: find_None_iff)
    with True show ?thesis by (simp add: find_in_row_upt[OF assms(1) r])
  next
    case False
    then have "List.find (\<lambda>c. board ! r ! c = 0) [0..<n] = None"
      by (auto simp: find_None_iff)
    with False Cons show ?thesis by (simp add: find_in_row_upt[OF assms(1) r])
  qed
qed

lemma find_empty_cell_spec:
  assumes "wf_board n board"
  shows "case find_empty_cell n board of
           Inl e \<Rightarrow> False
         | Inr None \<Rightarrow> (\<forall>r<n. \<forall>c<n. board ! r ! c \<noteq> 0)
         | Inr (Some (r, c)) \<Rightarrow>
             r < n \<and> c < n \<and> board ! r ! c = 0 \<and>
             (\<forall>r'<n. \<forall>c'<n. r' < r \<or> (r' = r \<and> c' < c) \<longrightarrow> board ! r' ! c' \<noteq> 0)"
proof -
  let ?P = "\<lambda>r. \<exists>c \<in> {0..<n}. board ! r ! c = 0"
  have fe: "find_empty_cell n board =
     (case List.find ?P [0..<n] of
        None \<Rightarrow> Inr None
      | Some r \<Rightarrow> Inr (map_option (Pair r) (List.find (\<lambda>c. board ! r ! c = 0) [0..<n])))"
    unfolding find_empty_cell_def by (rule find_in_rows_find[OF assms]) simp
  show ?thesis
  proof (cases "List.find ?P [0..<n]")
    case None
    then have "\<forall>r<n. \<forall>c<n. board ! r ! c \<noteq> 0" by (auto simp: find_None_iff)
    with None fe show ?thesis by simp
  next
    case (Some r)
    then have r: "r < n" "?P r" "\<forall>r'<r. \<not> ?P r'"
      by (auto simp: find_Some_iff)
    then obtain c where c: "List.find (\<lambda>c. board ! r ! c = 0) [0..<n] = Some c"
      by (cases "List.find (\<lambda>c. board ! r ! c = 0) [0..<n]") (auto simp: find_None_iff)
    then have c': "c < n" "board ! r ! c = 0" "\<forall>c'<c. board ! r ! c' \<noteq> 0"
      by (auto simp: find_Some_iff)
    have "\<forall>r'<n. \<forall>c'<n. r' < r \<or> (r' = r \<and> c' < c) \<longrightarrow> board ! r' ! c' \<noteq> 0"
      using r(3) c'(3) by auto
    with Some c fe r(1) c'(1,2) show ?thesis by simp
  qed
qed

text \<open>
  Claim C9. On an \<open>n\<close> by \<open>n\<close> board \<open>find_empty_cell\<close> raises nothing. It returns
  \<open>None\<close> exactly when no cell is empty, and otherwise the coordinates of an empty cell such
  that every cell before it in row-major order (an earlier row, or the same row and an
  earlier column) is non-empty.
\<close>

theorem find_empty_cell_row_major:
  assumes "wf_board n board"
  shows "case find_empty_cell n board of
           Inl e \<Rightarrow> False
         | Inr None \<Rightarrow> (\<forall>r<n. \<forall>c<n. board ! r ! c \<noteq> 0)
         | Inr (Some (r, c)) \<Rightarrow>
             r < n \<and> c < n \<and> board ! r ! c = 0 \<and>
             (\<forall>r'<n. \<forall>c'<n. r' < r \<or> (r' = r \<and> c' < c) \<longrightarrow> board ! r' ! c' \<noteq> 0)"
  using assms by (rule find_empty_cell_spec)

theorem find_empty_cell_row_major_witness:
  "wf_board 9 puzzle_example \<and> find_empty_cell 9 puzzle_example = Inr (Some (0, 0))"
proof -
  have w: "wf_board 9 puzzle_example" by code_simp
  have "find_empty_cell 9 puzzle_example = Inr (Some (0, 0))" by code_simp
  with w find_empty_cell_row_major[OF w] show ?thesis by simp
qed

section \<open>The validity check\<close>

lemma check_row_spec:
  "wf_board n board \<Longrightarrow> row < n \<Longrightarrow> \<forall>c \<in> set cs. c < n \<Longrightarrow>
   check_row board row col v cs = Inr (\<not> (\<exists>c \<in> set cs. c \<noteq> col \<and> board ! row ! c = v))"
  by (induction cs) (auto simp: wf_get_cell)

lemma check_col_spec:
  "wf_board n board \<Longrightarrow> col < n \<Longrightarrow> \<forall>r \<in> set rs. r < n \<Longrightarrow>
   check_col board row col v rs = Inr (\<not> (\<exists>r \<in> set rs. r \<noteq> row \<and> board ! r ! col = v))"
  by (induction rs) (auto simp: wf_get_cell)

lemma check_box_row_spec:
  "wf_board n board \<Longrightarrow> r < n \<Longrightarrow> \<forall>c \<in> set cs. c < n \<Longrightarrow>
   check_box_row board row col v r cs =
     Inr (\<not> (\<exists>c \<in> set cs. (r, c) \<noteq> (row, col) \<and> board ! r ! c = v))"
  by (induction cs) (auto simp: wf_get_cell)

lemma check_box_spec:
  assumes "wf_board n board" "b0 + 3 \<le> n"
  shows "\<forall>r \<in> set rs. r < n \<Longrightarrow>
   check_box board row col v b0 rs =
     Inr (\<not> (\<exists>r \<in> set rs. \<exists>c \<in> {b0..<b0 + 3}. (r, c) \<noteq> (row, col) \<and> board ! r ! c = v))"
proof (induction rs)
  case Nil
  show ?case by simp
next
  case (Cons r rs)
  then have r: "r < n" by simp
  have cs: "\<forall>c \<in> set [b0..<b0 + 3]. c < n" using assms(2) by auto
  let ?Q = "\<exists>c \<in> {b0..<b0 + 3}. (r, c) \<noteq> (row, col) \<and> board ! r ! c = v"
  from check_box_row_spec[OF assms(1) r cs, of row col v]
  have inner: "check_box_row board row col v r [b0..<b0 + 3] = Inr (\<not> ?Q)"
    by simp
  from Cons have rest: "check_box board row col v b0 rs =
     Inr (\<not> (\<exists>r \<in> set rs. \<exists>c \<in> {b0..<b0 + 3}. (r, c) \<noteq> (row, col) \<and> board ! r ! c = v))"
    by simp
  show ?case
  proof (cases ?Q)
    case True
    then have "(\<not> ?Q) = False" by blast
    with inner have "check_box_row board row col v r [b0..<b0 + 3] = Inr False"
      by (simp only:)
    then have "check_box board row col v b0 (r # rs) = Inr False" by simp
    moreover from True
    have "(\<not> (\<exists>r \<in> set (r # rs). \<exists>c \<in> {b0..<b0 + 3}. (r, c) \<noteq> (row, col) \<and> board ! r ! c = v))
          = False"
      by auto
    ultimately show ?thesis by (simp only:)
  next
    case False
    then have "(\<not> ?Q) = True" by blast
    with inner have "check_box_row board row col v r [b0..<b0 + 3] = Inr True"
      by (simp only:)
    then have "check_box board row col v b0 (r # rs) = check_box board row col v b0 rs" by simp
    moreover from False
    have "(\<exists>r \<in> set (r # rs). \<exists>c \<in> {b0..<b0 + 3}. (r, c) \<noteq> (row, col) \<and> board ! r ! c = v)
          = (\<exists>r \<in> set rs. \<exists>c \<in> {b0..<b0 + 3}. (r, c) \<noteq> (row, col) \<and> board ! r ! c = v)"
      by auto
    ultimately show ?thesis using rest by (simp only:)
  qed
qed

lemma box_start: "3 dvd n \<Longrightarrow> row < n \<Longrightarrow> row - row mod 3 + 3 \<le> (n::nat)"
proof -
  assume d: "3 dvd n" and r: "row < n"
  from d obtain k where k: "n = 3 * k" by (auto simp: dvd_def)
  with r have "row div 3 < k" by simp
  then have "3 * (row div 3) + 3 \<le> 3 * k" by simp
  moreover have "row - row mod 3 = 3 * (row div 3)"
    by (simp add: minus_mod_eq_mult_div)
  ultimately show ?thesis using k by simp
qed

lemma in_box: "(r::nat) \<in> {row - row mod 3..<row - row mod 3 + 3} \<longleftrightarrow> r div 3 = row div 3"
proof -
  have e: "row - row mod 3 = 3 * (row div 3)" by (simp add: minus_mod_eq_mult_div)
  show ?thesis unfolding e by auto
qed

lemma is_valid_spec:
  assumes w: "wf_board n board" and d: "3 dvd n" and r: "row < n" and c: "col < n"
  shows "is_valid n board row col v = Inr (\<not> occurs_elsewhere 3 n board row col v)"
proof -
  let ?A = "\<exists>c \<in> {0..<n}. c \<noteq> col \<and> board ! row ! c = v"
  let ?B = "\<exists>r \<in> {0..<n}. r \<noteq> row \<and> board ! r ! col = v"
  let ?C = "\<exists>r \<in> {row - row mod 3..<row - row mod 3 + 3}.
            \<exists>c \<in> {col - col mod 3..<col - col mod 3 + 3}. (r, c) \<noteq> (row, col) \<and> board ! r ! c = v"
  have a: "check_row board row col v [0..<n] = Inr (\<not> ?A)"
    using check_row_spec[OF w r, of "[0..<n]" col v] by simp
  have b: "check_col board row col v [0..<n] = Inr (\<not> ?B)"
    using check_col_spec[OF w c, of "[0..<n]" row v] by simp
  have "\<forall>x \<in> set [row - row mod 3..<row - row mod 3 + 3]. x < n"
    using box_start[OF d r] by auto
  from check_box_spec[OF w box_start[OF d c] this, of row col v]
  have cc: "check_box board row col v (col - col mod 3) [row - row mod 3..<row - row mod 3 + 3]
            = Inr (\<not> ?C)"
    by simp
  have iv: "is_valid n board row col v = Inr (\<not> (?A \<or> ?B \<or> ?C))"
    unfolding is_valid_def a b Let_def cc by (cases ?A; cases ?B; simp)
  have rb: "x < n" if "x div 3 = row div 3" for x
    using box_start[OF d r] in_box[of x row] that by simp
  have cb: "x < n" if "x div 3 = col div 3" for x
    using box_start[OF d c] in_box[of x col] that by simp
  let ?C' = "\<exists>r' c'. r' div 3 = row div 3 \<and> c' div 3 = col div 3 \<and> (r', c') \<noteq> (row, col)
             \<and> board ! r' ! c' = v"
  have cc': "?C \<longleftrightarrow> ?C'"
    unfolding Bex_def in_box by blast
  have "occurs_elsewhere 3 n board row col v \<longleftrightarrow> ?A \<or> ?B \<or> ?C'"
  proof
    assume "occurs_elsewhere 3 n board row col v"
    then obtain r' c' where o: "r' < n" "c' < n" "(r', c') \<noteq> (row, col)"
      "r' = row \<or> c' = col \<or> (r' div 3 = row div 3 \<and> c' div 3 = col div 3)"
      "board ! r' ! c' = v"
      unfolding occurs_elsewhere_def by auto
    from o(4) show "?A \<or> ?B \<or> ?C'"
    proof (elim disjE)
      assume "r' = row"
      with o have "c' \<in> {0..<n} \<and> c' \<noteq> col \<and> board ! row ! c' = v" by simp
      then show ?thesis by blast
    next
      assume "c' = col"
      with o have "r' \<in> {0..<n} \<and> r' \<noteq> row \<and> board ! r' ! col = v" by simp
      then show ?thesis by blast
    next
      assume "r' div 3 = row div 3 \<and> c' div 3 = col div 3"
      with o show ?thesis by blast
    qed
  next
    assume "?A \<or> ?B \<or> ?C'"
    then show "occurs_elsewhere 3 n board row col v"
    proof (elim disjE)
      assume ?A
      then obtain c' where "c' < n" "c' \<noteq> col" "board ! row ! c' = v" by auto
      with r show ?thesis unfolding occurs_elsewhere_def
        by (intro bexI[of _ row] bexI[of _ c']) simp_all
    next
      assume ?B
      then obtain r' where "r' < n" "r' \<noteq> row" "board ! r' ! col = v" by auto
      with c show ?thesis unfolding occurs_elsewhere_def
        by (intro bexI[of _ r'] bexI[of _ col]) simp_all
    next
      assume ?C'
      then obtain r' c' where o: "r' div 3 = row div 3" "c' div 3 = col div 3"
        "(r', c') \<noteq> (row, col)" "board ! r' ! c' = v" by blast
      with rb[OF o(1)] cb[OF o(2)] show ?thesis unfolding occurs_elsewhere_def
        by (intro bexI[of _ r'] bexI[of _ c']) simp_all
    qed
  qed
  with cc' have eq: "(?A \<or> ?B \<or> ?C) \<longleftrightarrow> occurs_elsewhere 3 n board row col v" by simp
  show ?thesis unfolding iv eq ..
qed

text \<open>
  Claim C2, as the code has it: the box that \<open>is_valid\<close> inspects is the aligned 3 by 3
  box. On an \<open>n\<close> by \<open>n\<close> board with \<open>n\<close> a multiple of 3 (so on every 9 by 9 board) and
  for a cell of the board, \<open>is_valid\<close> raises nothing and returns false exactly when the
  value occurs at another cell of the row, of the column or of that 3 by 3 box.
\<close>

theorem is_valid_sound:
  assumes "wf_board n board" "3 dvd n" "row < n" "col < n"
  shows "is_valid n board row col v = Inr (\<not> occurs_elsewhere 3 n board row col v)"
  using assms by (rule is_valid_spec)

theorem is_valid_sound_witness:
  "is_valid 9 puzzle_example 0 0 3 = Inr False \<and> occurs_elsewhere 3 9 puzzle_example 0 0 3
   \<and> is_valid 9 puzzle_example 0 0 5 = Inr True \<and> \<not> occurs_elsewhere 3 9 puzzle_example 0 0 5"
proof -
  have w: "wf_board 9 puzzle_example" by code_simp
  have v: "is_valid 9 puzzle_example 0 0 3 = Inr False" "is_valid 9 puzzle_example 0 0 5 = Inr True"
    by code_simp+
  from is_valid_sound[OF w, of 0 0 3] is_valid_sound[OF w, of 0 0 5] v show ?thesis by simp
qed

text \<open>
  With the box of side \<open>b\<close>, \<open>b * b = n\<close>, the statement fails on a 4 by 4 board: the value
  at \<open>(2, 2)\<close> is outside the 2 by 2 box of \<open>(0, 0)\<close> and inside the 3 by 3 box the code
  scans.
\<close>

theorem is_valid_box_counterexample:
  "wf_board 4 small_example \<and> 2 * 2 = (4::nat) \<and>
   is_valid 4 small_example 0 0 1 = Inr False \<and> \<not> occurs_elsewhere 2 4 small_example 0 0 1"
proof -
  have w: "wf_board 4 small_example" by code_simp
  have v: "is_valid 4 small_example 0 0 1 = Inr False" by code_simp
  have e: "{0..<4::nat} = {0, 1, 2, 3}" by auto
  have "\<not> occurs_elsewhere 2 4 small_example 0 0 1"
    unfolding occurs_elsewhere_def small_example_def e by simp
  with w v show ?thesis by simp
qed

section \<open>The solver\<close>

text \<open>
  Claim C4. Whenever \<open>solve\<close> returns false, the board at return is the board at entry,
  cell by cell (and row by row).
\<close>

theorem solve_restores_board:
  "solve n board = Inr (False, board') \<Longrightarrow> board' = board"
  by (rule solve_False_unchanged)

theorem solve_restores_board_witness:
  "solve 9 stuck_example = Inr (False, stuck_example)"
proof -
  have b: "solve 9 stuck_example = Inr (False, stuck_example)" by code_simp
  from solve_restores_board[OF b] b show ?thesis by simp
qed

lemma upd_length: "map length (upd board r c v) = map length board"
  by (cases "r < length board") (simp_all add: upd_def map_update list_update_beyond list_update_same_conv)

lemma upd_nth:
  "r < length board \<Longrightarrow> c < length (board ! r) \<Longrightarrow>
   upd board r c v ! r' ! c' = (if r' = r \<and> c' = c then v else board ! r' ! c')"
  by (auto simp: upd_def nth_list_update)

lemma keeps_cells_refl: "keeps_cells board board"
  by (simp add: keeps_cells_def)

lemma keeps_cells_but_refl: "keeps_cells_but row col board board"
  by (simp add: keeps_cells_but_def)

lemma same_shape_nth:
  "map length b' = map length b \<Longrightarrow> length b' = length b \<and> (\<forall>r<length b. length (b' ! r) = length (b ! r))"
  by (metis length_map nth_map)

lemma keeps_cells_but_upd:
  assumes r: "row < length board" "col < length (board ! row)"
    and k: "keeps_cells (upd board row col v) board'"
  shows "keeps_cells_but row col board board'"
  unfolding keeps_cells_but_def
proof (intro conjI allI impI)
  from k show "map length board' = map length board"
    by (simp add: keeps_cells_def upd_length)
next
  fix r c
  assume a: "r < length board" "c < length (board ! r)" "(r, c) \<noteq> (row, col)" "board ! r ! c \<noteq> 0"
  from same_shape_nth[OF upd_length[of board row col v]] a(1,2)
  have "r < length (upd board row col v)" "c < length (upd board row col v ! r)" by simp_all
  moreover from a(3,4) have "upd board row col v ! r ! c \<noteq> 0" by (auto simp: upd_nth[OF r])
  ultimately have "board' ! r ! c = upd board row col v ! r ! c"
    using k by (simp add: keeps_cells_def)
  with a(3) show "board' ! r ! c = board ! r ! c" by (auto simp: upd_nth[OF r])
qed

lemma keeps_cells_but_trans_upd:
  assumes r: "row < length board" "col < length (board ! row)"
    and k: "keeps_cells_but row col (upd board row col v) board'"
  shows "keeps_cells_but row col board board'"
  unfolding keeps_cells_but_def
proof (intro conjI allI impI)
  from k show "map length board' = map length board"
    by (simp add: keeps_cells_but_def upd_length)
next
  fix r c
  assume a: "r < length board" "c < length (board ! r)" "(r, c) \<noteq> (row, col)" "board ! r ! c \<noteq> 0"
  from same_shape_nth[OF upd_length[of board row col v]] a(1,2)
  have "r < length (upd board row col v)" "c < length (upd board row col v ! r)" by simp_all
  moreover from a(3,4) have "upd board row col v ! r ! c \<noteq> 0" by (auto simp: upd_nth[OF r])
  ultimately have "board' ! r ! c = upd board row col v ! r ! c"
    using k a(3) by (simp add: keeps_cells_but_def)
  with a(3) show "board' ! r ! c = board ! r ! c" by (auto simp: upd_nth[OF r])
qed

lemma keeps_cells_but_zero:
  "board ! row ! col = 0 \<Longrightarrow> keeps_cells_but row col board board' \<Longrightarrow> keeps_cells board board'"
  unfolding keeps_cells_def keeps_cells_but_def by auto

lemma solve_keeps_cells:
  "solve n board = Inr (ok, b') \<Longrightarrow> keeps_cells board b'"
  "solve_loop n board row col nums = Inr (ok, b') \<Longrightarrow> keeps_cells_but row col board b'"
proof (induction n board and n board row col nums arbitrary: ok b' and ok b'
    rule: solve_solve_loop.induct)
  case (1 n board)
  show ?case
  proof (cases "find_empty_cell n board")
    case (Inl e)
    with "1.prems" show ?thesis by simp
  next
    case (Inr found)
    show ?thesis
    proof (cases found)
      case None
      with Inr "1.prems" show ?thesis by (simp add: keeps_cells_refl)
    next
      case (Some p)
      obtain row col where p: "p = (row, col)" by (cases p)
      from Inr Some p "1.prems" have l: "solve_loop n board row col (candidates n) = Inr (ok, b')"
        by simp
      from find_empty_cell_Some[of n board row col] Inr Some p
      have z: "board ! row ! col = 0" by simp
      from "1.IH"[OF Inr Some p[symmetric] l] z show ?thesis
        by (rule keeps_cells_but_zero[rotated])
    qed
  qed
next
  case (2 n board row col)
  then show ?case by (simp add: keeps_cells_but_refl)
next
  case (3 n board row col num nums)
  show ?case
  proof (cases "is_valid n board row col num")
    case (Inl e)
    with "3.prems" show ?thesis by simp
  next
    case (Inr valid)
    show ?thesis
    proof (cases valid)
      case False
      with Inr "3.prems" have "solve_loop n board row col nums = Inr (ok, b')" by simp
      with "3.IH"(3) Inr False show ?thesis by simp
    next
      case True
      with Inr "3.prems" obtain board1 where b1: "set_cell board row col num = Inr board1"
        by (cases "set_cell board row col num") auto
      then have r: "row < length board" "col < length (board ! row)"
        and b1': "board1 = upd board row col num"
        by (auto simp: set_cell_Inr)
      from Inr True "3.prems" b1 obtain ok2 board2 where s1: "solve n board1 = Inr (ok2, board2)"
        by (cases "solve n board1") auto
      show ?thesis
      proof (cases ok2)
        case True
        with Inr \<open>valid\<close> b1 s1 "3.prems" have "ok = True" "b' = board2" by simp_all
        moreover from "3.IH"(1) Inr \<open>valid\<close> b1 s1
        have "keeps_cells board1 board2" by simp
        ultimately show ?thesis using keeps_cells_but_upd[OF r] b1' by simp
      next
        case False
        with s1 have b2: "board2 = board1" using solve_False_unchanged by simp
        from Inr True "3.prems" b1 s1 False obtain board3
          where b3: "set_cell board2 row col 0 = Inr board3"
          by (cases "set_cell board2 row col 0") auto
        with b2 b1' have b3': "board3 = upd board row col 0"
          by (simp add: set_cell_Inr upd_upd)
        from Inr True "3.prems" b1 s1 False b3
        have l: "solve_loop n board3 row col nums = Inr (ok, b')" by simp
        from "3.IH"(2) Inr True b1 s1 False b3 l
        have "keeps_cells_but row col board3 b'" by simp
        with b3' show ?thesis using keeps_cells_but_trans_upd[OF r] by simp
      qed
    qed
  qed
qed

text \<open>
  Claim C10. Whatever \<open>solve\<close> returns, a cell that was non-empty at entry is a cell of
  the board at return and holds the value it had at entry.
\<close>

theorem solve_preserves_givens:
  assumes "solve n board = Inr (ok, board')"
    and "r < length board" "c < length (board ! r)" "board ! r ! c \<noteq> 0"
  shows "get_cell board' r c = Inr (board ! r ! c)"
proof -
  from solve_keeps_cells(1)[OF assms(1)] have k: "keeps_cells board board'" .
  then have "map length board' = map length board" by (simp add: keeps_cells_def)
  from same_shape_nth[OF this] assms(2,3)
  have "r < length board'" "c < length (board' ! r)" by simp_all
  moreover from k assms(2-4) have "board' ! r ! c = board ! r ! c"
    by (simp add: keeps_cells_def)
  ultimately show ?thesis by (simp add: get_cell_def)
qed

theorem solve_preserves_givens_witness:
  "solve 9 puzzle_example = Inr (True, solved_example) \<and> get_cell solved_example 0 1 = Inr 3"
proof -
  have s: "solve 9 puzzle_example = Inr (True, solved_example)" by code_simp
  have "(0::nat) < length puzzle_example" "1 < length (puzzle_example ! 0)"
    "puzzle_example ! 0 ! 1 = 3"
    by (simp_all add: puzzle_example_def)
  with solve_preserves_givens[OF s, of 0 1] s show ?thesis by simp
qed

section \<open>The solution counter leaves the board as it found it\<close>

lemma copy_board_id: "copy_board board = board"
  by (simp add: copy_board_def)

text \<open>
  Claim C6. A call of \<open>_count_solutions()\<close> returns the object as it was: the recursion
  writes to its own copy of the board. Moreover the recursion undoes each of its writes,
  so the board it worked on holds at return the values it held at entry, whatever the
  count; this covers a call that is handed a board explicitly.
\<close>

theorem count_solutions_leaves_board:
  "(count_solutions_self s = Inr (k, s') \<longrightarrow>
      s' = s \<and> count_solutions (self_size s) (self_board s) = Inr (k, self_board s)) \<and>
   (count_solutions n board = Inr (k', board') \<longrightarrow> board' = board)"
proof (rule conjI; rule impI)
  assume a: "count_solutions_self s = Inr (k, s')"
  then obtain work where w: "count_solutions (self_size s) (self_board s) = Inr (k, work)"
    and s': "s' = s"
    by (auto simp: count_solutions_self_def copy_board_id split: sum.splits)
  from count_solutions_unchanged[OF w] have "work = self_board s" .
  with w s' show "s' = s \<and> count_solutions (self_size s) (self_board s) = Inr (k, self_board s)"
    by simp
next
  assume "count_solutions n board = Inr (k', board')"
  then show "board' = board" by (rule count_solutions_unchanged)
qed

theorem count_solutions_leaves_board_witness:
  "count_solutions_self ((sudoku_init 9)\<lparr>self_board := puzzle_example\<rparr>)
     = Inr (1, (sudoku_init 9)\<lparr>self_board := puzzle_example\<rparr>) \<and>
   count_solutions 9 puzzle_example = Inr (1, puzzle_example)"
proof -
  have c: "count_solutions 9 puzzle_example = Inr (1, puzzle_example)" by code_simp
  then have "count_solutions_self ((sudoku_init 9)\<lparr>self_board := puzzle_example\<rparr>)
     = Inr (1, (sudoku_init 9)\<lparr>self_board := puzzle_example\<rparr>)"
    by (simp add: count_solutions_self_def copy_board_id sudoku_init_def)
  with c count_solutions_leaves_board[of "(sudoku_init 9)\<lparr>self_board := puzzle_example\<rparr>" 1
      "(sudoku_init 9)\<lparr>self_board := puzzle_example\<rparr>" 9 puzzle_example 1 puzzle_example]
  show ?thesis by simp
qed

section \<open>Valid boards and their completions\<close>

lemma upd_beyond: "\<not> r < length board \<Longrightarrow> upd board r c v = board"
  by (simp add: upd_def list_update_beyond)

lemma wf_upd: "wf_board n board \<Longrightarrow> wf_board n (upd board r c v)"
proof (cases "r < length board")
  case True
  assume w: "wf_board n board"
  then have "length ((board ! r)[c := v]) = n" using True by (simp add: wf_board_def)
  moreover have "set (upd board r c v) \<subseteq> insert ((board ! r)[c := v]) (set board)"
    unfolding upd_def by (rule set_update_subset_insert)
  ultimately show ?thesis using w unfolding wf_board_def upd_def by auto
next
  case False
  assume "wf_board n board"
  with upd_beyond[OF False] show ?thesis by simp
qed

lemma in_range_upd:
  assumes "in_range n board" "0 \<le> v" "v \<le> int n"
  shows "in_range n (upd board r c v)"
proof (cases "r < length board")
  case False
  with upd_beyond[OF False] assms(1) show ?thesis by simp
next
  case True
  show ?thesis unfolding in_range_def
  proof (intro ballI)
    fix row x assume row: "row \<in> set (upd board r c v)" and x: "x \<in> set row"
    from row have "row \<in> insert ((board ! r)[c := v]) (set board)"
      unfolding upd_def using set_update_subset_insert by fast
    then show "0 \<le> x \<and> x \<le> int n"
    proof
      assume "row = (board ! r)[c := v]"
      with x have "x \<in> insert v (set (board ! r))" using set_update_subset_insert by fast
      then show ?thesis
      proof
        assume "x = v" with assms show ?thesis by simp
      next
        assume "x \<in> set (board ! r)"
        moreover from True have "board ! r \<in> set board" by simp
        ultimately show ?thesis using assms(1) unfolding in_range_def by blast
      qed
    next
      assume "row \<in> set board"
      with x assms(1) show ?thesis unfolding in_range_def by simp
    qed
  qed
qed

lemma grid_upd: "grid n board \<Longrightarrow> 0 \<le> v \<Longrightarrow> v \<le> int n \<Longrightarrow> grid n (upd board r c v)"
  by (simp add: grid_def wf_upd in_range_upd)

lemma wf_nth: "wf_board n board \<Longrightarrow> r < n \<Longrightarrow> r < length board \<and> length (board ! r) = n"
  by (simp add: wf_board_def)

lemma upd_nth_wf:
  "wf_board n board \<Longrightarrow> r < n \<Longrightarrow> c < n \<Longrightarrow>
   upd board r c v ! r' ! c' = (if r' = r \<and> c' = c then v else board ! r' ! c')"
  by (rule upd_nth) (simp_all add: wf_board_def)

lemma set_cell_wf:
  "wf_board n board \<Longrightarrow> r < n \<Longrightarrow> c < n \<Longrightarrow> set_cell board r c v = Inr (upd board r c v)"
  by (simp add: set_cell_Inr wf_board_def)

lemma grid_cell_range:
  assumes "grid n board" "r < n" "c < n"
  shows "0 \<le> board ! r ! c \<and> board ! r ! c \<le> int n"
proof -
  from assms have "r < length board" "c < length (board ! r)"
    by (simp_all add: grid_def wf_board_def)
  then have "board ! r \<in> set board" "board ! r ! c \<in> set (board ! r)" by simp_all
  with assms(1) show ?thesis unfolding grid_def in_range_def by blast
qed

lemma peer_sym: "peer bs p q \<Longrightarrow> peer bs q p"
  by (auto simp: peer_def)

lemma occurs_peer:
  "occurs_elsewhere bs n board row col v \<longleftrightarrow>
     (\<exists>r c. r < n \<and> c < n \<and> peer bs (row, col) (r, c) \<and> board ! r ! c = v)"
  unfolding occurs_elsewhere_def peer_def Bex_def by auto

lemma valid_boardD:
  assumes "valid_board n board" "r < n" "c < n" "board ! r ! c \<noteq> 0"
    "r' < n" "c' < n" "peer 3 (r, c) (r', c')"
  shows "board ! r' ! c' \<noteq> board ! r ! c"
proof
  assume "board ! r' ! c' = board ! r ! c"
  with assms(5-7) have "occurs_elsewhere 3 n board r c (board ! r ! c)"
    unfolding occurs_peer by blast
  with assms(1-4) show False unfolding valid_board_def by simp
qed

lemma valid_boardI:
  assumes "\<And>r c r' c'. r < n \<Longrightarrow> c < n \<Longrightarrow> board ! r ! c \<noteq> 0 \<Longrightarrow> r' < n \<Longrightarrow> c' < n \<Longrightarrow>
             peer 3 (r, c) (r', c') \<Longrightarrow> board ! r' ! c' \<noteq> board ! r ! c"
  shows "valid_board n board"
  unfolding valid_board_def occurs_peer using assms by auto

lemma valid_upd:
  assumes w: "wf_board n board" and r: "r < n" and c: "c < n"
    and v: "valid_board n board" and o: "\<not> occurs_elsewhere 3 n board r c x"
  shows "valid_board n (upd board r c x)"
proof (rule valid_boardI)
  fix r1 c1 r2 c2
  assume a: "r1 < n" "c1 < n" "upd board r c x ! r1 ! c1 \<noteq> 0" "r2 < n" "c2 < n"
    "peer 3 (r1, c1) (r2, c2)"
  note nth = upd_nth_wf[OF w r c]
  show "upd board r c x ! r2 ! c2 \<noteq> upd board r c x ! r1 ! c1"
  proof (cases "(r1, c1) = (r, c)")
    case True
    with a(6) have ne: "(r2, c2) \<noteq> (r, c)" by (auto simp: peer_def)
    from o a(4,5) a(6) True have "board ! r2 ! c2 \<noteq> x" unfolding occurs_peer by blast
    with True ne show ?thesis by (auto simp: nth)
  next
    case False
    then have v1: "upd board r c x ! r1 ! c1 = board ! r1 ! c1" by (auto simp: nth)
    with a(3) have nz: "board ! r1 ! c1 \<noteq> 0" by simp
    show ?thesis
    proof (cases "(r2, c2) = (r, c)")
      case True
      from peer_sym[OF a(6)] True have "peer 3 (r, c) (r1, c1)" by simp
      with o a(1,2) have "board ! r1 ! c1 \<noteq> x" unfolding occurs_peer by blast
      with True v1 show ?thesis by (auto simp: nth)
    next
      case False
      then have "upd board r c x ! r2 ! c2 = board ! r2 ! c2" by (auto simp: nth)
      with v1 valid_boardD[OF v a(1,2) nz a(4,5,6)] show ?thesis by simp
    qed
  qed
qed

lemma valid_clear:
  assumes w: "wf_board n board" and r: "r < n" and c: "c < n" and v: "valid_board n board"
  shows "valid_board n (upd board r c 0)"
proof (rule valid_boardI)
  fix r1 c1 r2 c2
  assume a: "r1 < n" "c1 < n" "upd board r c 0 ! r1 ! c1 \<noteq> 0" "r2 < n" "c2 < n"
    "peer 3 (r1, c1) (r2, c2)"
  note nth = upd_nth_wf[OF w r c]
  from a(3) have ne: "(r1, c1) \<noteq> (r, c)" and v1: "upd board r c 0 ! r1 ! c1 = board ! r1 ! c1"
    by (auto simp: nth split: if_splits)
  with a(3) have nz: "board ! r1 ! c1 \<noteq> 0" by simp
  show "upd board r c 0 ! r2 ! c2 \<noteq> upd board r c 0 ! r1 ! c1"
  proof (cases "(r2, c2) = (r, c)")
    case True
    with nz v1 show ?thesis by (auto simp: nth)
  next
    case False
    then have "upd board r c 0 ! r2 ! c2 = board ! r2 ! c2" by (auto simp: nth)
    with v1 valid_boardD[OF v a(1,2) nz a(4,5,6)] show ?thesis by simp
  qed
qed

lemma extends_upd_imp:
  assumes w: "wf_board n board" and r: "r < n" and c: "c < n" and z: "board ! r ! c = 0"
    and e: "extends n (upd board r c x) s"
  shows "extends n board s"
  unfolding extends_def
proof (intro ballI impI)
  fix r1 c1 assume a: "r1 \<in> {0..<n}" "c1 \<in> {0..<n}" "board ! r1 ! c1 \<noteq> 0"
  with z have "(r1, c1) \<noteq> (r, c)" by auto
  then have "upd board r c x ! r1 ! c1 = board ! r1 ! c1" by (auto simp: upd_nth_wf[OF w r c])
  with e a show "s ! r1 ! c1 = board ! r1 ! c1" unfolding extends_def by metis
qed

lemma completion_upd_imp:
  "wf_board n board \<Longrightarrow> r < n \<Longrightarrow> c < n \<Longrightarrow> board ! r ! c = 0 \<Longrightarrow>
   completion n (upd board r c x) s \<Longrightarrow> completion n board s"
  unfolding completion_def using extends_upd_imp by blast

lemma completion_cell:
  assumes w: "wf_board n board" and r: "r < n" and c: "c < n" and x: "x \<noteq> 0"
    and k: "completion n (upd board r c x) s"
  shows "s ! r ! c = x"
proof -
  have "upd board r c x ! r ! c = x" by (simp add: upd_nth_wf[OF w r c])
  with k x r c show ?thesis unfolding completion_def extends_def by auto
qed

lemma completion_split:
  assumes w: "wf_board n board" and r: "r < n" and c: "c < n" and z: "board ! r ! c = 0"
    and k: "completion n board s"
  shows "s ! r ! c \<in> set (candidates n) \<and> \<not> occurs_elsewhere 3 n board r c (s ! r ! c) \<and>
         completion n (upd board r c (s ! r ! c)) s"
proof (intro conjI)
  from k have g: "grid n s" and cp: "complete n s" and v: "valid_board n s" and e: "extends n board s"
    by (simp_all add: completion_def)
  from cp r c have nz: "s ! r ! c \<noteq> 0" by (simp add: complete_def)
  from grid_cell_range[OF g r c] nz have rg: "1 \<le> s ! r ! c" "s ! r ! c \<le> int n" by simp_all
  then have "nat (s ! r ! c) \<in> set [1..<n + 1]" by auto
  then have "int (nat (s ! r ! c)) \<in> set (candidates n)" unfolding candidates_def set_map
    by (rule imageI)
  with rg show "s ! r ! c \<in> set (candidates n)" by simp
  show "\<not> occurs_elsewhere 3 n board r c (s ! r ! c)"
  proof
    assume "occurs_elsewhere 3 n board r c (s ! r ! c)"
    then obtain r' c' where p: "r' < n" "c' < n" "peer 3 (r, c) (r', c')" "board ! r' ! c' = s ! r ! c"
      unfolding occurs_peer by blast
    with nz e have "s ! r' ! c' = s ! r ! c" unfolding extends_def by simp
    with valid_boardD[OF v r c nz p(1,2,3)] show False by simp
  qed
  have "extends n (upd board r c (s ! r ! c)) s"
    unfolding extends_def
  proof (intro ballI impI)
    fix r1 c1 assume a: "r1 \<in> {0..<n}" "c1 \<in> {0..<n}" "upd board r c (s ! r ! c) ! r1 ! c1 \<noteq> 0"
    show "s ! r1 ! c1 = upd board r c (s ! r ! c) ! r1 ! c1"
    proof (cases "(r1, c1) = (r, c)")
      case True
      then show ?thesis by (simp add: upd_nth_wf[OF w r c])
    next
      case False
      then have u: "upd board r c (s ! r ! c) ! r1 ! c1 = board ! r1 ! c1"
        by (auto simp: upd_nth_wf[OF w r c])
      with a e show ?thesis unfolding extends_def by simp
    qed
  qed
  with g cp v show "completion n (upd board r c (s ! r ! c)) s" by (simp add: completion_def)
qed

lemma board_eqI:
  assumes "wf_board n s" "wf_board n t" "\<And>r c. r < n \<Longrightarrow> c < n \<Longrightarrow> s ! r ! c = t ! r ! c"
  shows "s = t"
proof (rule nth_equalityI)
  from assms(1,2) show "length s = length t" by (simp add: wf_board_def)
next
  fix r assume "r < length s"
  with assms(1) have r: "r < n" by (simp add: wf_board_def)
  show "s ! r = t ! r"
  proof (rule nth_equalityI)
    from wf_nth[OF assms(1) r] wf_nth[OF assms(2) r] show "length (s ! r) = length (t ! r)" by simp
  next
    fix c assume "c < length (s ! r)"
    with wf_nth[OF assms(1) r] have "c < n" by simp
    with r assms(3) show "s ! r ! c = t ! r ! c" by simp
  qed
qed

lemma completions_complete:
  assumes "grid n board" "complete n board" "valid_board n board"
  shows "completions n board = {board}"
proof
  show "completions n board \<subseteq> {board}"
  proof
    fix s assume "s \<in> completions n board"
    then have k: "grid n s" "extends n board s" by (simp_all add: completions_def completion_def)
    have "s = board"
    proof (rule board_eqI)
      from k(1) show "wf_board n s" by (simp add: grid_def)
      from assms(1) show "wf_board n board" by (simp add: grid_def)
    next
      fix r c assume "r < n" "c < n"
      with assms(2) k(2) show "s ! r ! c = board ! r ! c" by (simp add: complete_def extends_def)
    qed
    then show "s \<in> {board}" by simp
  qed
  from assms show "{board} \<subseteq> completions n board"
    by (simp add: completions_def completion_def extends_def)
qed

lemma finite_grids: "finite {s. grid n s}"
proof -
  let ?rows = "{row. set row \<subseteq> {0..int n} \<and> length row = n}"
  have fr: "finite ?rows" by (rule finite_lists_length_eq) simp
  have "{s. grid n s} \<subseteq> {s. set s \<subseteq> ?rows \<and> length s = n}"
    unfolding grid_def wf_board_def in_range_def by auto
  moreover have "finite {s. set s \<subseteq> ?rows \<and> length s = n}"
    by (rule finite_lists_length_eq[OF fr])
  ultimately show ?thesis by (rule finite_subset)
qed

lemma finite_completions: "finite (completions n board)"
  by (rule finite_subset[OF _ finite_grids[of n]]) (auto simp: completions_def completion_def)

lemma find_empty_cell_cases:
  assumes "wf_board n board"
  shows "(find_empty_cell n board = Inr None \<and> complete n board) \<or>
         (\<exists>r c. find_empty_cell n board = Inr (Some (r, c)) \<and> r < n \<and> c < n \<and> board ! r ! c = 0)"
proof (cases "find_empty_cell n board")
  case (Inl e)
  with find_empty_cell_spec[OF assms] show ?thesis by simp
next
  case (Inr found)
  show ?thesis
  proof (cases found)
    case None
    with Inr find_empty_cell_spec[OF assms] show ?thesis by (simp add: complete_def)
  next
    case (Some p)
    obtain r c where "p = (r, c)" by (cases p)
    with Some Inr find_empty_cell_spec[OF assms] show ?thesis by simp
  qed
qed

lemma candidates_range: "v \<in> set (candidates n) \<longleftrightarrow> 1 \<le> v \<and> v \<le> int n"
proof
  assume "v \<in> set (candidates n)"
  then show "1 \<le> v \<and> v \<le> int n" by (auto simp: candidates_def)
next
  assume a: "1 \<le> v \<and> v \<le> int n"
  then have "nat v \<in> set [1..<n + 1]" by auto
  then have "int (nat v) \<in> set (candidates n)" unfolding candidates_def set_map by (rule imageI)
  with a show "v \<in> set (candidates n)" by simp
qed

lemma candidates_distinct: "distinct (candidates n)"
  by (simp add: candidates_def distinct_map inj_on_def)

lemma child_board:
  assumes g: "grid n board" and vb: "valid_board n board" and r: "r < n" and c: "c < n"
    and z: "board ! r ! c = 0" and v: "1 \<le> v" "v \<le> int n"
    and o: "\<not> occurs_elsewhere 3 n board r c v"
  shows "grid n (upd board r c v)" "valid_board n (upd board r c v)"
    "zeros (upd board r c v) < zeros board"
proof -
  from g have w: "wf_board n board" by (simp add: grid_def)
  from g v show "grid n (upd board r c v)" by (intro grid_upd) simp_all
  from valid_upd[OF w r c vb o] show "valid_board n (upd board r c v)" .
  from wf_nth[OF w r] c have "r < length board" "c < length (board ! r)" by simp_all
  from zeros_upd[OF this, of v] z v show "zeros (upd board r c v) < zeros board" by simp
qed

lemma branch_Nil: "branch n board r c [] = {}"
  by (simp add: branch_def)

lemma branch_Cons:
  "branch n board r c (v # nums) =
     (if occurs_elsewhere 3 n board r c v then {} else completions n (upd board r c v))
     \<union> branch n board r c nums"
  unfolding branch_def by auto

lemma branch_cong: "set nums = set nums' \<Longrightarrow> branch n board r c nums = branch n board r c nums'"
  by (simp add: branch_def)

lemma branch_all:
  assumes w: "wf_board n board" and r: "r < n" and c: "c < n" and z: "board ! r ! c = 0"
  shows "branch n board r c (candidates n) = completions n board"
proof
  show "branch n board r c (candidates n) \<subseteq> completions n board"
    unfolding branch_def completions_def using completion_upd_imp[OF w r c z] by auto
  show "completions n board \<subseteq> branch n board r c (candidates n)"
  proof
    fix s assume "s \<in> completions n board"
    then have "completion n board s" by (simp add: completions_def)
    from completion_split[OF w r c z this]
    show "s \<in> branch n board r c (candidates n)" unfolding branch_def completions_def by blast
  qed
qed

lemma branch_cell:
  assumes w: "wf_board n board" and r: "r < n" and c: "c < n" and nz: "0 \<notin> set nums"
    and s: "s \<in> branch n board r c nums"
  shows "s ! r ! c \<in> set nums"
proof -
  from s obtain v where v: "v \<in> set nums" "completion n (upd board r c v) s"
    unfolding branch_def completions_def by auto
  with nz have "v \<noteq> 0" by auto
  from completion_cell[OF w r c this v(2)] v(1) show ?thesis by simp
qed

lemma finite_branch: "finite (branch n board r c nums)"
  unfolding branch_def by (auto intro: finite_completions)

lemma card_branch_Cons:
  assumes w: "wf_board n board" and r: "r < n" and c: "c < n"
    and nz: "0 \<notin> set (v # nums)" and d: "distinct (v # nums)"
  shows "card (branch n board r c (v # nums)) =
     (if occurs_elsewhere 3 n board r c v then 0 else card (completions n (upd board r c v)))
     + card (branch n board r c nums)"
proof (cases "occurs_elsewhere 3 n board r c v")
  case True
  then show ?thesis by (simp add: branch_Cons)
next
  case False
  have "completions n (upd board r c v) \<inter> branch n board r c nums = {}"
  proof (rule ccontr)
    assume "completions n (upd board r c v) \<inter> branch n board r c nums \<noteq> {}"
    then obtain s where s: "completion n (upd board r c v) s" "s \<in> branch n board r c nums"
      by (auto simp: completions_def)
    from nz have "v \<noteq> 0" "0 \<notin> set nums" by auto
    from completion_cell[OF w r c this(1) s(1)] branch_cell[OF w r c this(2) s(2)] d
    show False by simp
  qed
  with False show ?thesis
    by (simp add: branch_Cons card_Un_disjoint finite_completions finite_branch)
qed

section \<open>What the counter returns\<close>

lemma count_loop_spec:
  assumes g: "grid n board" and d: "3 dvd n" and r: "r < n" and c: "c < n"
    and z: "board ! r ! c = 0"
    and child: "\<And>v. v \<in> set nums \<Longrightarrow> \<not> occurs_elsewhere 3 n board r c v \<Longrightarrow>
       \<exists>k. count_solutions n (upd board r c v) = Inr (k, upd board r c v) \<and>
           counts k (card (completions n (upd board r c v)))"
    and dist: "distinct nums" and nz: "0 \<notin> set nums"
    and cnt: "0 \<le> cnt" "cnt \<le> 1"
  shows "\<exists>k. count_loop n board r c nums cnt = Inr (k, board) \<and>
           k \<le> cnt + int (card (branch n board r c nums)) \<and>
           min 2 (cnt + int (card (branch n board r c nums))) \<le> k"
  using child dist nz cnt
proof (induction nums arbitrary: cnt)
  case Nil
  then show ?case by (simp add: branch_Nil)
next
  case (Cons v nums)
  from g have w: "wf_board n board" by (simp add: grid_def)
  have iv: "is_valid n board r c v = Inr (\<not> occurs_elsewhere 3 n board r c v)"
    by (rule is_valid_spec[OF w d r c])
  have card: "card (branch n board r c (v # nums)) =
     (if occurs_elsewhere 3 n board r c v then 0 else card (completions n (upd board r c v)))
     + card (branch n board r c nums)"
    by (rule card_branch_Cons[OF w r c Cons.prems(3) Cons.prems(2)])
  have ih: "\<exists>k. count_loop n board r c nums cnt' = Inr (k, board) \<and>
           k \<le> cnt' + int (card (branch n board r c nums)) \<and>
           min 2 (cnt' + int (card (branch n board r c nums))) \<le> k"
    if "0 \<le> cnt'" "cnt' \<le> 1" for cnt'
    using Cons.prems(1,2,3) that by (intro Cons.IH) auto
  show ?case
  proof (cases "occurs_elsewhere 3 n board r c v")
    case True
    with iv have "count_loop n board r c (v # nums) cnt = count_loop n board r c nums cnt"
      by simp
    with ih[OF Cons.prems(4,5)] card True show ?thesis by simp
  next
    case False
    from Cons.prems(1)[of v] False obtain k1
      where k1: "count_solutions n (upd board r c v) = Inr (k1, upd board r c v)"
        and ck: "counts k1 (card (completions n (upd board r c v)))"
      by auto
    have s1: "set_cell board r c v = Inr (upd board r c v)" by (rule set_cell_wf[OF w r c])
    have "set_cell (upd board r c v) r c 0 = Inr (upd (upd board r c v) r c 0)"
      by (rule set_cell_wf[OF wf_upd[OF w] r c])
    with z have s2: "set_cell (upd board r c v) r c 0 = Inr board"
      by (simp add: upd_upd upd_same)
    have step: "count_loop n board r c (v # nums) cnt =
       (if cnt + k1 > 1 then Inr (cnt + k1, board)
        else count_loop n board r c nums (cnt + k1))"
      using iv False s1 k1 s2 by simp
    from ck have k1b: "k1 \<le> int (card (completions n (upd board r c v)))"
      "int (min 2 (card (completions n (upd board r c v)))) \<le> k1" by (simp_all add: counts_def)
    then have k1n: "0 \<le> k1" by linarith
    show ?thesis
    proof (cases "cnt + k1 > 1")
      case True
      with step k1b Cons.prems(4,5) card False show ?thesis by simp
    next
      case False
      with k1n Cons.prems(4) have c': "0 \<le> cnt + k1" "cnt + k1 \<le> 1" by simp_all
      from False Cons.prems(4) k1b have "k1 = int (card (completions n (upd board r c v)))"
        by (simp add: min_def split: if_splits)
      with ih[OF c'] step False card \<open>\<not> occurs_elsewhere 3 n board r c v\<close>
      show ?thesis by (simp add: add.assoc)
    qed
  qed
qed

lemma count_solutions_spec:
  assumes "grid n board" "3 dvd n" "valid_board n board"
  shows "\<exists>k. count_solutions n board = Inr (k, board) \<and> counts k (card (completions n board))"
  using assms
proof (induction "zeros board" arbitrary: board rule: less_induct)
  case less
  from less.prems have w: "wf_board n board" by (simp add: grid_def)
  from find_empty_cell_cases[OF w] show ?case
  proof (elim disjE exE conjE)
    assume f: "find_empty_cell n board = Inr None" and cp: "complete n board"
    from completions_complete[OF less.prems(1) cp less.prems(3)] f
    show ?thesis by (simp add: counts_def)
  next
    fix r c
    assume f: "find_empty_cell n board = Inr (Some (r, c))" and r: "r < n" and c: "c < n"
      and z: "board ! r ! c = 0"
    have child: "\<exists>k. count_solutions n (upd board r c v) = Inr (k, upd board r c v) \<and>
           counts k (card (completions n (upd board r c v)))"
      if "v \<in> set (candidates n)" "\<not> occurs_elsewhere 3 n board r c v" for v
    proof -
      from that(1) have v: "1 \<le> v" "v \<le> int n" by (simp_all add: candidates_range)
      from child_board[OF less.prems(1,3) r c z v that(2)] less.prems(2)
      show ?thesis by (intro less.hyps) simp_all
    qed
    have "\<exists>k. count_loop n board r c (candidates n) 0 = Inr (k, board) \<and>
           k \<le> 0 + int (card (branch n board r c (candidates n))) \<and>
           min 2 (0 + int (card (branch n board r c (candidates n)))) \<le> k"
    proof (rule count_loop_spec[OF less.prems(1,2) r c z])
      fix v assume "v \<in> set (candidates n)" "\<not> occurs_elsewhere 3 n board r c v"
      then show "\<exists>k. count_solutions n (upd board r c v) = Inr (k, upd board r c v) \<and>
           counts k (card (completions n (upd board r c v)))"
        by (rule child)
    qed (simp_all add: candidates_distinct candidates_nonzero)
    then obtain k where "count_loop n board r c (candidates n) 0 = Inr (k, board)"
      "k \<le> int (card (branch n board r c (candidates n)))"
      "min 2 (int (card (branch n board r c (candidates n)))) \<le> k"
      by auto
    with f branch_all[OF w r c z] show ?thesis by (simp add: counts_def)
  qed
qed

section \<open>What the searches return\<close>

text \<open>
  On a valid grid the solver and the filler are complete backtracking searches: they
  return false with the board restored when there is no completion, and true with a
  completion on the board otherwise.
\<close>

lemma solve_loop_spec:
  assumes g: "grid n board" and d: "3 dvd n" and r: "r < n" and c: "c < n"
    and z: "board ! r ! c = 0"
    and child: "\<And>v. v \<in> set nums \<Longrightarrow> \<not> occurs_elsewhere 3 n board r c v \<Longrightarrow>
       (completions n (upd board r c v) = {} \<and>
          solve n (upd board r c v) = Inr (False, upd board r c v)) \<or>
       (\<exists>s \<in> completions n (upd board r c v). solve n (upd board r c v) = Inr (True, s))"
  shows "(branch n board r c nums = {} \<and> solve_loop n board r c nums = Inr (False, board)) \<or>
         (\<exists>s \<in> branch n board r c nums. solve_loop n board r c nums = Inr (True, s))"
  using child
proof (induction nums)
  case Nil
  then show ?case by (simp add: branch_Nil)
next
  case (Cons v nums)
  from g have w: "wf_board n board" by (simp add: grid_def)
  have iv: "is_valid n board r c v = Inr (\<not> occurs_elsewhere 3 n board r c v)"
    by (rule is_valid_spec[OF w d r c])
  have ih: "(branch n board r c nums = {} \<and> solve_loop n board r c nums = Inr (False, board)) \<or>
         (\<exists>s \<in> branch n board r c nums. solve_loop n board r c nums = Inr (True, s))"
    using Cons.prems by (intro Cons.IH) auto
  show ?case
  proof (cases "occurs_elsewhere 3 n board r c v")
    case True
    with iv have "solve_loop n board r c (v # nums) = solve_loop n board r c nums" by simp
    with ih True show ?thesis by (simp add: branch_Cons)
  next
    case False
    have s1: "set_cell board r c v = Inr (upd board r c v)" by (rule set_cell_wf[OF w r c])
    have "set_cell (upd board r c v) r c 0 = Inr (upd (upd board r c v) r c 0)"
      by (rule set_cell_wf[OF wf_upd[OF w] r c])
    with z have s2: "set_cell (upd board r c v) r c 0 = Inr board"
      by (simp add: upd_upd upd_same)
    from Cons.prems[of v] False
    consider (none) "completions n (upd board r c v) = {}"
        "solve n (upd board r c v) = Inr (False, upd board r c v)"
      | (some) s where "s \<in> completions n (upd board r c v)"
        "solve n (upd board r c v) = Inr (True, s)"
      by auto
    then show ?thesis
    proof cases
      case none
      with iv False s1 s2
      have "solve_loop n board r c (v # nums) = solve_loop n board r c nums" by simp
      with ih none(1) False show ?thesis by (simp add: branch_Cons)
    next
      case some
      with iv False s1 have "solve_loop n board r c (v # nums) = Inr (True, s)" by simp
      moreover from some(1) False have "s \<in> branch n board r c (v # nums)"
        by (simp add: branch_Cons)
      ultimately show ?thesis by blast
    qed
  qed
qed

lemma solve_spec:
  assumes "grid n board" "3 dvd n" "valid_board n board"
  shows "(completions n board = {} \<and> solve n board = Inr (False, board)) \<or>
         (\<exists>s \<in> completions n board. solve n board = Inr (True, s))"
  using assms
proof (induction "zeros board" arbitrary: board rule: less_induct)
  case less
  from less.prems have w: "wf_board n board" by (simp add: grid_def)
  from find_empty_cell_cases[OF w] show ?case
  proof (elim disjE exE conjE)
    assume f: "find_empty_cell n board = Inr None" and cp: "complete n board"
    from completions_complete[OF less.prems(1) cp less.prems(3)] f
    show ?thesis by simp
  next
    fix r c
    assume f: "find_empty_cell n board = Inr (Some (r, c))" and r: "r < n" and c: "c < n"
      and z: "board ! r ! c = 0"
    have "(branch n board r c (candidates n) = {} \<and>
            solve_loop n board r c (candidates n) = Inr (False, board)) \<or>
          (\<exists>s \<in> branch n board r c (candidates n).
            solve_loop n board r c (candidates n) = Inr (True, s))"
    proof (rule solve_loop_spec[OF less.prems(1,2) r c z])
      fix v assume a: "v \<in> set (candidates n)" "\<not> occurs_elsewhere 3 n board r c v"
      from a(1) have v: "1 \<le> v" "v \<le> int n" by (simp_all add: candidates_range)
      from child_board[OF less.prems(1,3) r c z v a(2)] less.prems(2)
      show "(completions n (upd board r c v) = {} \<and>
          solve n (upd board r c v) = Inr (False, upd board r c v)) \<or>
       (\<exists>s \<in> completions n (upd board r c v). solve n (upd board r c v) = Inr (True, s))"
        by (intro less.hyps) simp_all
    qed
    with f branch_all[OF w r c z] show ?thesis by simp
  qed
qed

lemma fill_loop_spec:
  assumes g: "grid n board" and d: "3 dvd n" and r: "r < n" and c: "c < n"
    and z: "board ! r ! c = 0"
    and child: "\<And>v rng. v \<in> set nums \<Longrightarrow> \<not> occurs_elsewhere 3 n board r c v \<Longrightarrow>
       (completions n (upd board r c v) = {} \<and>
          (\<exists>rng'. fill_board n (upd board r c v) rng = Inr (False, upd board r c v, rng'))) \<or>
       (\<exists>s \<in> completions n (upd board r c v). \<exists>rng'.
          fill_board n (upd board r c v) rng = Inr (True, s, rng'))"
  shows "(branch n board r c nums = {} \<and>
            (\<exists>rng'. fill_loop n board r c nums rng = Inr (False, board, rng'))) \<or>
         (\<exists>s \<in> branch n board r c nums. \<exists>rng'.
            fill_loop n board r c nums rng = Inr (True, s, rng'))"
  using child
proof (induction nums arbitrary: rng)
  case Nil
  then show ?case by (simp add: branch_Nil)
next
  case (Cons v nums)
  from g have w: "wf_board n board" by (simp add: grid_def)
  have iv: "is_valid n board r c v = Inr (\<not> occurs_elsewhere 3 n board r c v)"
    by (rule is_valid_spec[OF w d r c])
  have ih: "(branch n board r c nums = {} \<and>
            (\<exists>rng'. fill_loop n board r c nums rng1 = Inr (False, board, rng'))) \<or>
         (\<exists>s \<in> branch n board r c nums. \<exists>rng'.
            fill_loop n board r c nums rng1 = Inr (True, s, rng'))" for rng1
    using Cons.prems by (intro Cons.IH) auto
  show ?case
  proof (cases "occurs_elsewhere 3 n board r c v")
    case True
    with iv have "fill_loop n board r c (v # nums) rng = fill_loop n board r c nums rng" by simp
    with ih[of rng] True show ?thesis by (simp add: branch_Cons)
  next
    case False
    have s1: "set_cell board r c v = Inr (upd board r c v)" by (rule set_cell_wf[OF w r c])
    have "set_cell (upd board r c v) r c 0 = Inr (upd (upd board r c v) r c 0)"
      by (rule set_cell_wf[OF wf_upd[OF w] r c])
    with z have s2: "set_cell (upd board r c v) r c 0 = Inr board"
      by (simp add: upd_upd upd_same)
    from Cons.prems[of v rng] False
    consider (none) rng2 where "completions n (upd board r c v) = {}"
        "fill_board n (upd board r c v) rng = Inr (False, upd board r c v, rng2)"
      | (some) s rng2 where "s \<in> completions n (upd board r c v)"
        "fill_board n (upd board r c v) rng = Inr (True, s, rng2)"
      by auto
    then show ?thesis
    proof cases
      case none
      with iv False s1 s2
      have "fill_loop n board r c (v # nums) rng = fill_loop n board r c nums rng2" by simp
      with ih[of rng2] none(1) False show ?thesis by (simp add: branch_Cons)
    next
      case some
      with iv False s1 have "fill_loop n board r c (v # nums) rng = Inr (True, s, rng2)" by simp
      moreover from some(1) False have "s \<in> branch n board r c (v # nums)"
        by (simp add: branch_Cons)
      ultimately show ?thesis by blast
    qed
  qed
qed

lemma fill_board_spec:
  assumes "grid n board" "3 dvd n" "valid_board n board"
  shows "(completions n board = {} \<and> (\<exists>rng'. fill_board n board rng = Inr (False, board, rng'))) \<or>
         (\<exists>s \<in> completions n board. \<exists>rng'. fill_board n board rng = Inr (True, s, rng'))"
  using assms
proof (induction "zeros board" arbitrary: board rng rule: less_induct)
  case less
  from less.prems have w: "wf_board n board" by (simp add: grid_def)
  from find_empty_cell_cases[OF w] show ?case
  proof (elim disjE exE conjE)
    assume f: "find_empty_cell n board = Inr None" and cp: "complete n board"
    from completions_complete[OF less.prems(1) cp less.prems(3)] f
    show ?thesis by simp
  next
    fix r c
    assume f: "find_empty_cell n board = Inr (Some (r, c))" and r: "r < n" and c: "c < n"
      and z: "board ! r ! c = 0"
    obtain nums rng1 where sh: "shuffle (candidates n) rng = (nums, rng1)"
      by (cases "shuffle (candidates n) rng")
    from shuffle_set[OF sh] have sn: "set nums = set (candidates n)" .
    have "(branch n board r c nums = {} \<and>
            (\<exists>rng'. fill_loop n board r c nums rng1 = Inr (False, board, rng'))) \<or>
          (\<exists>s \<in> branch n board r c nums. \<exists>rng'.
            fill_loop n board r c nums rng1 = Inr (True, s, rng'))"
    proof (rule fill_loop_spec[OF less.prems(1,2) r c z])
      fix v rng0 assume a: "v \<in> set nums" "\<not> occurs_elsewhere 3 n board r c v"
      from a(1) sn have v: "1 \<le> v" "v \<le> int n" by (simp_all add: candidates_range)
      from child_board[OF less.prems(1,3) r c z v a(2)] less.prems(2)
      show "(completions n (upd board r c v) = {} \<and>
          (\<exists>rng'. fill_board n (upd board r c v) rng0 = Inr (False, upd board r c v, rng'))) \<or>
       (\<exists>s \<in> completions n (upd board r c v). \<exists>rng'.
          fill_board n (upd board r c v) rng0 = Inr (True, s, rng'))"
        by (intro less.hyps) simp_all
    qed
    with f sh branch_cong[OF sn, of n board r c] branch_all[OF w r c z] show ?thesis by simp
  qed
qed

section \<open>Complete valid grids are solved\<close>

lemma unit_perm:
  assumes g: "grid n s" and cp: "complete n s" and v: "valid_board n s"
    and d: "distinct cells" and l: "length cells = n"
    and rg: "\<forall>p \<in> set cells. fst p < n \<and> snd p < n"
    and pr: "\<forall>p \<in> set cells. \<forall>q \<in> set cells. p \<noteq> q \<longrightarrow> peer 3 p q"
  shows "mset (map (\<lambda>(r, c). s ! r ! c) cells) = mset (candidates n)"
proof -
  let ?f = "\<lambda>(r, c). s ! r ! c"
  have inj: "inj_on ?f (set cells)"
  proof (rule inj_onI)
    fix p q assume a: "p \<in> set cells" "q \<in> set cells" "?f p = ?f q"
    show "p = q"
    proof (rule ccontr)
      assume ne: "p \<noteq> q"
      obtain r c where p: "p = (r, c)" by (cases p)
      obtain r' c' where q: "q = (r', c')" by (cases q)
      from rg a p q have b: "r < n" "c < n" "r' < n" "c' < n" by auto
      from cp b have nz: "s ! r ! c \<noteq> 0" by (simp add: complete_def)
      from pr a ne p q have "peer 3 (r, c) (r', c')" by blast
      from valid_boardD[OF v b(1,2) nz b(3,4) this] a(3) p q show False by simp
    qed
  qed
  then have dv: "distinct (map ?f cells)" using d by (simp add: distinct_map)
  have sub: "set (map ?f cells) \<subseteq> set (candidates n)"
  proof
    fix x assume "x \<in> set (map ?f cells)"
    then obtain r c where rc: "(r, c) \<in> set cells" "x = s ! r ! c" by auto
    with rg have b: "r < n" "c < n" by auto
    from cp b have "s ! r ! c \<noteq> 0" by (simp add: complete_def)
    with grid_cell_range[OF g b] rc(2) show "x \<in> set (candidates n)"
      by (simp add: candidates_range)
  qed
  have "card (set (map ?f cells)) = length (map ?f cells)" using dv by (rule distinct_card)
  with l have "card (set (map ?f cells)) = n" by simp
  moreover have "card (set (candidates n)) = length (candidates n)"
    using candidates_distinct by (rule distinct_card)
  then have "card (set (candidates n)) = n" by (simp add: candidates_def)
  ultimately have "set (map ?f cells) = set (candidates n)"
    using sub by (intro card_subset_eq) simp_all
  then show ?thesis
    using set_eq_iff_mset_eq_distinct[OF dv candidates_distinct[of n]] by blast
qed

lemma row_perm:
  assumes "grid n s" "complete n s" "valid_board n s" "r < n"
  shows "mset (row_values n s r) = mset (candidates n)"
proof -
  have "mset (map (\<lambda>(r, c). s ! r ! c) (map (Pair r) [0..<n])) = mset (candidates n)"
    using assms(4)
    by (intro unit_perm[OF assms(1-3)]) (auto simp: distinct_map inj_on_def peer_def)
  then show ?thesis by (simp add: row_values_def comp_def)
qed

lemma col_perm:
  assumes "grid n s" "complete n s" "valid_board n s" "c < n"
  shows "mset (col_values n s c) = mset (candidates n)"
proof -
  have "mset (map (\<lambda>(r, c). s ! r ! c) (map (\<lambda>r. (r, c)) [0..<n])) = mset (candidates n)"
    using assms(4)
    by (intro unit_perm[OF assms(1-3)]) (auto simp: distinct_map inj_on_def peer_def)
  then show ?thesis by (simp add: col_values_def comp_def)
qed

lemma box_cells_map:
  "[f r c. r \<leftarrow> xs, c \<leftarrow> ys] = map (\<lambda>(r, c). f r c) (List.product xs ys)"
  by (induction xs) (simp_all add: comp_def)

lemma box_perm:
  assumes "grid 9 s" "complete 9 s" "valid_board 9 s" "br < 3" "bc < 3"
  shows "mset (box_values s br bc) = mset (candidates 9)"
proof -
  let ?cells = "List.product [3 * br..<3 * br + 3] [3 * bc..<3 * bc + 3]"
  have "mset (map (\<lambda>(r, c). s ! r ! c) ?cells) = mset (candidates 9)"
  proof (rule unit_perm[OF assms(1-3)])
    show "distinct ?cells" by (simp add: distinct_product)
    show "length ?cells = 9" by simp
    show "\<forall>p \<in> set ?cells. fst p < 9 \<and> snd p < 9" using assms(4,5) by auto
    show "\<forall>p \<in> set ?cells. \<forall>q \<in> set ?cells. p \<noteq> q \<longrightarrow> peer 3 p q"
    proof (intro ballI impI)
      fix p q assume a: "p \<in> set ?cells" "q \<in> set ?cells" "p \<noteq> q"
      then have "fst p div 3 = br" "fst q div 3 = br" "snd p div 3 = bc" "snd q div 3 = bc"
        by auto
      with a(3) show "peer 3 p q" by (simp add: peer_def)
    qed
  qed
  then show ?thesis unfolding box_values_def box_cells_map .
qed

lemma solved_grid:
  assumes "grid 9 s" "complete 9 s" "valid_board 9 s"
  shows "solved 9 s"
  unfolding solved_def using assms row_perm[OF assms] col_perm[OF assms] box_perm[OF assms]
  by simp

section \<open>Facts about the example boards\<close>

lemma all_cells_set: "set (all_cells n) = {0..<n} \<times> {0..<n}"
  by (auto simp: all_cells_def)

lemma valid_board_check:
  assumes "wf_board n board" "3 dvd n"
  shows "valid_board n board \<longleftrightarrow>
     list_all (\<lambda>(r, c). board ! r ! c = 0 \<or> is_valid n board r c (board ! r ! c) = Inr True)
       (all_cells n)"
  unfolding valid_board_def list_all_iff all_cells_set
  using is_valid_spec[OF assms] by auto

lemma puzzle_example_grid: "grid 9 puzzle_example"
  by (simp add: grid_def wf_board_def in_range_def puzzle_example_def)

lemma puzzle_example_valid: "valid_board 9 puzzle_example"
proof -
  have w: "wf_board 9 puzzle_example" using puzzle_example_grid by (simp add: grid_def)
  have "list_all (\<lambda>(r, c). puzzle_example ! r ! c = 0 \<or>
          is_valid 9 puzzle_example r c (puzzle_example ! r ! c) = Inr True) (all_cells 9)"
    by code_simp
  with valid_board_check[OF w] show ?thesis by simp
qed

lemma ones_example_grid: "grid 9 ones_example"
  by (simp add: grid_def wf_board_def in_range_def ones_example_def)

lemma ones_example_no_completion: "completions 9 ones_example = {}"
proof (rule ccontr)
  assume "completions 9 ones_example \<noteq> {}"
  then obtain s where s: "completion 9 ones_example s" by (auto simp: completions_def)
  then have e: "extends 9 ones_example s" and v: "valid_board 9 s" by (simp_all add: completion_def)
  have o: "ones_example ! 0 ! 0 = 1" "ones_example ! 0 ! 1 = 1" by (simp_all add: ones_example_def)
  from e o have "s ! 0 ! 0 = 1" "s ! 0 ! 1 = 1" unfolding extends_def by auto
  moreover have "peer 3 (0, 0) (0, 1)" by (simp add: peer_def)
  ultimately show False using valid_boardD[OF v, of 0 0 0 1] by simp
qed

section \<open>The solver on valid grids\<close>

text \<open>
  Claim C5, as the code has it. The solver never checks the cells it is given, so the
  board must be valid at entry: for every valid 9 by 9 grid on which \<open>solve\<close> returns
  true, the board at return is a completion of the board at entry; it is complete and
  each of its rows, columns and boxes is a permutation of 1 to 9.
\<close>

theorem solve_solves:
  assumes "grid 9 board" "valid_board 9 board" "solve 9 board = Inr (True, board')"
  shows "completion 9 board board' \<and> solved 9 board'"
proof -
  from solve_spec[OF assms(1) _ assms(2)] assms(3)
  have "board' \<in> completions 9 board" by auto
  then have c: "completion 9 board board'" by (simp add: completions_def)
  then have "solved 9 board'" by (intro solved_grid) (simp_all add: completion_def)
  with c show ?thesis by simp
qed

theorem solve_solves_witness:
  "solve 9 puzzle_example = Inr (True, solved_example) \<and>
   completion 9 puzzle_example solved_example \<and> solved 9 solved_example"
proof -
  have s: "solve 9 puzzle_example = Inr (True, solved_example)" by code_simp
  from solve_solves[OF puzzle_example_grid puzzle_example_valid s] s show ?thesis by simp
qed

text \<open>
  On a board that is not valid the claim fails: the 9 by 9 board of ones is complete,
  \<open>solve\<close> returns true at once, and no row of it is a permutation of 1 to 9.
\<close>

theorem solve_invalid_board_counterexample:
  "grid 9 ones_example \<and> solve 9 ones_example = Inr (True, ones_example) \<and>
   \<not> solved 9 ones_example"
proof -
  have s: "solve 9 ones_example = Inr (True, ones_example)" by code_simp
  have "\<not> solved 9 ones_example"
  proof
    assume "solved 9 ones_example"
    then have "mset (row_values 9 ones_example 0) = mset (candidates 9)"
      by (simp add: solved_def)
    then have "set (row_values 9 ones_example 0) = set (candidates 9)" by (rule mset_eq_setD)
    moreover have "2 \<in> set (candidates 9)" by (simp add: candidates_range)
    ultimately have "2 \<in> set (row_values 9 ones_example 0)" by simp
    then show False by (auto simp: row_values_def ones_example_def)
  qed
  with ones_example_grid s show ?thesis by simp
qed

section \<open>The counter on valid grids\<close>

text \<open>
  Claim C3, as the code has it. The counter never checks the cells it is given either.
  For every valid \<open>n\<close> by \<open>n\<close> grid, \<open>n\<close> a multiple of 3, the count returned is 0
  exactly when the board has no completion, 1 exactly when it has one, and at least 2
  exactly when it has two or more; a complete board counts 1. Within a call, once a
  candidate brings the running count above 1 the loop returns that count at once,
  whatever candidates are left.
\<close>

theorem count_solutions_counts:
  assumes "grid n board" "3 dvd n" "valid_board n board"
  shows "\<exists>k. count_solutions n board = Inr (k, board) \<and>
     (k = 0 \<longleftrightarrow> completions n board = {}) \<and>
     (k = 1 \<longleftrightarrow> card (completions n board) = 1) \<and>
     (2 \<le> k \<longleftrightarrow> 2 \<le> card (completions n board)) \<and>
     (complete n board \<longrightarrow> k = 1) \<and>
     (\<forall>r c v nums cnt k1. r < n \<and> c < n \<and> is_valid n board r c v = Inr True \<and>
        count_solutions n (upd board r c v) = Inr (k1, upd board r c v) \<and> 1 < cnt + k1 \<longrightarrow>
        count_loop n board r c (v # nums) cnt = Inr (cnt + k1, upd board r c 0))"
proof -
  from count_solutions_spec[OF assms] obtain k
    where k: "count_solutions n board = Inr (k, board)"
      and b: "k \<le> int (card (completions n board))" "int (min 2 (card (completions n board))) \<le> k"
    by (auto simp: counts_def)
  have fin: "finite (completions n board)" by (rule finite_completions)
  from assms have w: "wf_board n board" by (simp add: grid_def)
  have z: "k = 0 \<longleftrightarrow> completions n board = {}"
    using b fin by (auto simp: min_def card_eq_0_iff split: if_splits)
  have o: "k = 1 \<longleftrightarrow> card (completions n board) = 1"
    using b by (auto simp: min_def split: if_splits)
  have t: "2 \<le> k \<longleftrightarrow> 2 \<le> card (completions n board)"
    using b by (auto simp: min_def split: if_splits)
  have cp: "complete n board \<longrightarrow> k = 1"
    using completions_complete[OF assms(1) _ assms(3)] o by auto
  have sc: "count_loop n board r c (v # nums) cnt = Inr (cnt + k1, upd board r c 0)"
    if "r < n" "c < n" "is_valid n board r c v = Inr True"
      "count_solutions n (upd board r c v) = Inr (k1, upd board r c v)" "1 < cnt + k1"
    for r c v nums cnt k1
  proof -
    have "set_cell board r c v = Inr (upd board r c v)" by (rule set_cell_wf[OF w that(1,2)])
    moreover have "set_cell (upd board r c v) r c 0 = Inr (upd board r c 0)"
      using set_cell_wf[OF wf_upd[OF w] that(1,2), of r c v 0] by (simp add: upd_upd)
    ultimately show ?thesis using that(3,4,5) by simp
  qed
  from k z o t cp sc show ?thesis by blast
qed

theorem count_solutions_counts_witness:
  "count_solutions 9 puzzle_example = Inr (1, puzzle_example) \<and>
   card (completions 9 puzzle_example) = 1"
proof -
  have c: "count_solutions 9 puzzle_example = Inr (1, puzzle_example)" by code_simp
  from count_solutions_counts[OF puzzle_example_grid _ puzzle_example_valid] c
  show ?thesis by auto
qed

text \<open>
  On a board that is not valid the claim fails: the board of ones has no completion and
  the counter returns 1.
\<close>

theorem count_invalid_board_counterexample:
  "grid 9 ones_example \<and> completions 9 ones_example = {} \<and>
   count_solutions 9 ones_example = Inr (1, ones_example)"
proof -
  have "count_solutions 9 ones_example = Inr (1, ones_example)" by code_simp
  with ones_example_grid ones_example_no_completion show ?thesis by simp
qed

section \<open>The generator\<close>

lemma solved_example_completion: "completion 9 puzzle_example solved_example"
proof -
  have s: "solve 9 puzzle_example = Inr (True, solved_example)" by code_simp
  from solve_spec[OF puzzle_example_grid _ puzzle_example_valid] s
  have "solved_example \<in> completions 9 puzzle_example" by auto
  then show ?thesis by (simp add: completions_def)
qed

lemma empty_board_grid: "grid n (empty_board n)"
  by (simp add: grid_def wf_board_def in_range_def empty_board_def)

lemma empty_board_nth: "r < n \<Longrightarrow> c < n \<Longrightarrow> empty_board n ! r ! c = 0"
  by (simp add: empty_board_def)

lemma empty_board_valid: "valid_board n (empty_board n)"
  by (simp add: valid_board_def empty_board_nth)

lemma empty_board_completion: "solved_example \<in> completions 9 (empty_board 9)"
  using solved_example_completion
  by (simp add: completions_def completion_def extends_def empty_board_nth)

lemma generate_board_spec:
  assumes "self_size s = 9"
  shows "\<exists>sol rng1. generate_board s rng =
            Inr (s\<lparr>self_board := sol, self_solution := Some sol\<rparr>, rng1) \<and>
          grid 9 sol \<and> complete 9 sol \<and> valid_board 9 sol"
proof -
  from fill_board_spec[OF empty_board_grid _ empty_board_valid, of 9 rng] empty_board_completion
  obtain sol rng1 where f: "fill_board 9 (empty_board 9) rng = Inr (True, sol, rng1)"
    and c: "sol \<in> completions 9 (empty_board 9)"
    by auto
  from f assms have "generate_board s rng =
     Inr (s\<lparr>self_board := sol, self_solution := Some sol\<rparr>, rng1)"
    by (simp add: generate_board_def copy_board_id del: fill_board.simps)
  with c show ?thesis by (auto simp: completions_def completion_def)
qed

lemma extends_trans: "extends n a b \<Longrightarrow> extends n b c \<Longrightarrow> extends n a c"
  unfolding extends_def by (metis)

lemma extends_refl: "extends n a a"
  by (simp add: extends_def)

lemma completions_mono: "extends n a b \<Longrightarrow> completions n b \<subseteq> completions n a"
  unfolding completions_def completion_def using extends_trans by blast

lemma extends_clear:
  assumes "wf_board n board" "r < n" "c < n"
  shows "extends n (upd board r c 0) board"
  unfolding extends_def by (auto simp: upd_nth_wf[OF assms])

lemma extends_clear_both:
  assumes w: "wf_board n a" "wf_board n b" and r: "r < n" and c: "c < n" and e: "extends n a b"
  shows "extends n (upd a r c 0) (upd b r c 0)"
  unfolding extends_def
proof (intro ballI impI)
  fix r1 c1 assume a: "r1 \<in> {0..<n}" "c1 \<in> {0..<n}" "upd a r c 0 ! r1 ! c1 \<noteq> 0"
  then have ne: "(r1, c1) \<noteq> (r, c)" by (auto simp: upd_nth_wf[OF w(1) r c] split: if_splits)
  with a e show "upd b r c 0 ! r1 ! c1 = upd a r c 0 ! r1 ! c1"
    unfolding extends_def by (auto simp: upd_nth_wf[OF w(1) r c] upd_nth_wf[OF w(2) r c])
qed

lemma stuck_mono:
  assumes w: "wf_board n a" "wf_board n b" and r: "r < n" and c: "c < n"
    and e: "extends n a b" and st: "stuck n b r c"
  shows "stuck n a r c"
proof -
  from completions_mono[OF extends_clear_both[OF w r c e]]
  have "card (completions n (upd b r c 0)) \<le> card (completions n (upd a r c 0))"
    by (intro card_mono finite_completions)
  with st show ?thesis by (simp add: stuck_def)
qed

lemma count_solutions_self_spec:
  assumes "self_size s = n" "grid n (self_board s)" "3 dvd n" "valid_board n (self_board s)"
  shows "\<exists>k. count_solutions_self s = Inr (k, s) \<and>
           count_solutions n (self_board s) = Inr (k, self_board s) \<and>
           counts k (card (completions n (self_board s)))"
  using count_solutions_spec[OF assms(2-4)] assms(1)
  by (auto simp: count_solutions_self_def copy_board_id simp del: count_solutions.simps)

lemma counts_one: "counts 1 m \<Longrightarrow> m = 1"
  unfolding counts_def by (cases "m \<le> 2") (simp_all add: min_def)

lemma counts_two:
  assumes "counts k m" "1 \<le> m" "k \<noteq> 1"
  shows "2 \<le> m"
proof (rule ccontr)
  assume "\<not> 2 \<le> m"
  with assms(2) have "m = 1" by simp
  with assms(1) have "k \<le> 1" "1 \<le> k" by (simp_all add: counts_def)
  with assms(3) show False by simp
qed

lemma post_stop:
  assumes "grid 9 b" "valid_board 9 b" "completions 9 b = {sol}" "t \<le> k \<or> cells = []"
  shows "removal_post sol t k cells b b k"
proof -
  from assms(4) have "k < t \<longrightarrow> (\<forall>p \<in> set cells. b ! fst p ! snd p \<noteq> 0 \<longrightarrow> stuck 9 b (fst p) (snd p))"
    by auto
  moreover have "int (zeros b) = int (zeros b) + (k - k)" by simp
  moreover have "\<forall>r<9. \<forall>c<9. (r, c) \<notin> set cells \<longrightarrow> b ! r ! c = b ! r ! c" by simp
  moreover have "k \<le> t \<longrightarrow> k \<le> t" by simp
  moreover note assms(1,2,3) extends_refl[of 9 b]
  ultimately show ?thesis unfolding removal_post_def by (intro conjI)
qed

lemma post_removed:
  assumes w: "wf_board 9 b" and r: "r < 9" and c: "c < 9" and nz: "b ! r ! c \<noteq> 0"
    and fresh: "(r, c) \<notin> set cells" and tk: "\<not> t \<le> k"
    and p: "removal_post sol t (k + 1) cells (upd b r c 0) b' k'"
  shows "removal_post sol t k ((r, c) # cells) b b' k'"
proof -
  note nth = upd_nth_wf[OF w r c]
  from p have q: "grid 9 b'" "valid_board 9 b'" "completions 9 b' = {sol}"
    "extends 9 b' (upd b r c 0)"
    "int (zeros b') = int (zeros (upd b r c 0)) + (k' - (k + 1))"
    "k + 1 \<le> t \<longrightarrow> k' \<le> t"
    "k' < t \<longrightarrow> (\<forall>p \<in> set cells. b' ! fst p ! snd p \<noteq> 0 \<longrightarrow> stuck 9 b' (fst p) (snd p))"
    "\<forall>r'<9. \<forall>c'<9. (r', c') \<notin> set cells \<longrightarrow> b' ! r' ! c' = upd b r c 0 ! r' ! c'"
    by (simp_all add: removal_post_def)
  from wf_nth[OF w r] c have "r < length b" "c < length (b ! r)" by simp_all
  from zeros_upd[OF this, of 0] nz have z1: "int (zeros (upd b r c 0)) = int (zeros b) + 1"
    by simp
  from q(8) r c fresh have hd0: "b' ! r ! c = 0" by (simp add: nth)
  have e: "extends 9 b' b" by (rule extends_trans[OF q(4) extends_clear[OF w r c]])
  have z: "int (zeros b') = int (zeros b) + (k' - k)" using q(5) z1 by simp
  have le: "k \<le> t \<longrightarrow> k' \<le> t" using q(6) tk by simp
  have st: "k' < t \<longrightarrow> (\<forall>p \<in> set ((r, c) # cells).
       b' ! fst p ! snd p \<noteq> 0 \<longrightarrow> stuck 9 b' (fst p) (snd p))"
    using q(7) hd0 by simp
  have un: "\<forall>r'<9. \<forall>c'<9. (r', c') \<notin> set ((r, c) # cells) \<longrightarrow> b' ! r' ! c' = b ! r' ! c'"
  proof (intro allI impI)
    fix r' c' assume a: "r' < 9" "c' < 9" "(r', c') \<notin> set ((r, c) # cells)"
    then have n: "(r', c') \<notin> set cells" "\<not> (r' = r \<and> c' = c)" by auto
    from q(8) a(1,2) n(1) have "b' ! r' ! c' = upd b r c 0 ! r' ! c'" by blast
    also from n(2) have "\<dots> = b ! r' ! c'" by (auto simp: nth)
    finally show "b' ! r' ! c' = b ! r' ! c'" .
  qed
  from q(1,2,3) e z le st un show ?thesis unfolding removal_post_def by (intro conjI)
qed

lemma post_rejected:
  assumes w: "wf_board 9 b" and r: "r < 9" and c: "c < 9" and s: "stuck 9 b r c"
    and p: "removal_post sol t k cells b b' k'"
  shows "removal_post sol t k ((r, c) # cells) b b' k'"
proof -
  from p have q: "grid 9 b'" "valid_board 9 b'" "completions 9 b' = {sol}"
    "extends 9 b' b"
    "int (zeros b') = int (zeros b) + (k' - k)"
    "k \<le> t \<longrightarrow> k' \<le> t"
    "k' < t \<longrightarrow> (\<forall>p \<in> set cells. b' ! fst p ! snd p \<noteq> 0 \<longrightarrow> stuck 9 b' (fst p) (snd p))"
    "\<forall>r'<9. \<forall>c'<9. (r', c') \<notin> set cells \<longrightarrow> b' ! r' ! c' = b ! r' ! c'"
    by (simp_all add: removal_post_def)
  from q(1) have wb': "wf_board 9 b'" by (simp add: grid_def)
  have "stuck 9 b' r c" by (rule stuck_mono[OF wb' w r c q(4) s])
  with q(7) have st: "k' < t \<longrightarrow> (\<forall>p \<in> set ((r, c) # cells).
       b' ! fst p ! snd p \<noteq> 0 \<longrightarrow> stuck 9 b' (fst p) (snd p))"
    by simp
  have un: "\<forall>r'<9. \<forall>c'<9. (r', c') \<notin> set ((r, c) # cells) \<longrightarrow> b' ! r' ! c' = b ! r' ! c'"
    using q(8) by simp
  from q(1-6) st un show ?thesis unfolding removal_post_def by (intro conjI)
qed

lemma remove_loop_spec:
  assumes sz: "self_size s = 9"
    and g: "grid 9 (self_board s)" and v: "valid_board 9 (self_board s)"
    and u: "completions 9 (self_board s) = {sol}"
    and d: "distinct cells"
    and nzc: "\<forall>p \<in> set cells. fst p < 9 \<and> snd p < 9 \<and> self_board s ! fst p ! snd p \<noteq> 0"
  shows "\<exists>b' k'. remove_loop s t k cells = Inr (s\<lparr>self_board := b'\<rparr>, k') \<and>
           removal_post sol t k cells (self_board s) b' k'"
  using sz g v u d nzc
proof (induction cells arbitrary: s k)
  case Nil
  have "remove_loop s t k [] = Inr (s\<lparr>self_board := self_board s\<rparr>, k)" by simp
  moreover from Nil have "removal_post sol t k [] (self_board s) (self_board s) k"
    by (intro post_stop) simp_all
  ultimately show ?case by blast
next
  case (Cons p cells)
  obtain r c where p: "p = (r, c)" by (cases p)
  define b where "b = self_board s"
  from Cons.prems(2) have gb: "grid 9 b" and w: "wf_board 9 b" by (simp_all add: grid_def b_def)
  from Cons.prems(3,4) have vb: "valid_board 9 b" and ub: "completions 9 b = {sol}"
    by (simp_all add: b_def)
  from Cons.prems(6) p have r: "r < 9" and c: "c < 9" and nz: "b ! r ! c \<noteq> 0"
    by (simp_all add: b_def)
  from Cons.prems(5) p have fresh: "(r, c) \<notin> set cells" and dc: "distinct cells" by simp_all
  show ?case
  proof (cases "t \<le> k")
    case True
    then have "remove_loop s t k (p # cells) = Inr (s\<lparr>self_board := b\<rparr>, k)"
      by (simp add: p b_def)
    moreover from True have "removal_post sol t k (p # cells) b b k"
      by (intro post_stop gb vb ub) simp
    ultimately show ?thesis unfolding b_def by blast
  next
    case False
    define b1 where "b1 = upd b r c 0"
    define s1 where "s1 = s\<lparr>self_board := b1\<rparr>"
    have s1: "self_size s1 = 9" "self_board s1 = b1" using Cons.prems(1) by (simp_all add: s1_def)
    have gc: "get_cell (self_board s) r c = Inr (b ! r ! c)"
      unfolding b_def[symmetric] by (rule wf_get_cell[OF w r c])
    have sc: "set_cell (self_board s) r c 0 = Inr b1"
      unfolding b_def[symmetric] b1_def by (rule set_cell_wf[OF w r c])
    have g1: "grid 9 b1" unfolding b1_def using gb by (intro grid_upd) simp_all
    then have w1: "wf_board 9 b1" by (simp add: grid_def)
    have v1: "valid_board 9 b1" unfolding b1_def by (rule valid_clear[OF w r c vb])
    have e1: "extends 9 b1 b" unfolding b1_def by (rule extends_clear[OF w r c])
    from completions_mono[OF e1] ub have in1: "sol \<in> completions 9 b1" by auto
    from count_solutions_self_spec[of s1 9] s1 g1 v1
    obtain kk where cs: "count_solutions_self s1 = Inr (kk, s1)"
      and ck: "counts kk (card (completions 9 b1))"
      by (auto simp del: count_solutions.simps)
    show ?thesis
    proof (cases "kk = 1")
      case True
      with ck have "counts 1 (card (completions 9 b1))" by simp
      then have "card (completions 9 b1) = 1" by (rule counts_one)
      then obtain x where "completions 9 b1 = {x}" by (rule card_1_singletonE)
      with in1 have u1: "completions 9 b1 = {sol}" by simp
      have step: "remove_loop s t k (p # cells) = remove_loop s1 t (k + 1) cells"
        using False gc sc cs True by (simp add: p s1_def[symmetric])
      have nz1: "\<forall>q \<in> set cells. fst q < 9 \<and> snd q < 9 \<and> self_board s1 ! fst q ! snd q \<noteq> 0"
      proof
        fix q assume q: "q \<in> set cells"
        with fresh have ne: "\<not> (fst q = r \<and> snd q = c)" by auto
        from Cons.prems(6) q have a: "fst q < 9" "snd q < 9" "b ! fst q ! snd q \<noteq> 0"
          by (simp_all add: b_def)
        from ne have "b1 ! fst q ! snd q = b ! fst q ! snd q"
          unfolding b1_def by (auto simp: upd_nth_wf[OF w r c])
        with a show "fst q < 9 \<and> snd q < 9 \<and> self_board s1 ! fst q ! snd q \<noteq> 0"
          by (simp add: s1(2))
      qed
      have "\<exists>b' k'. remove_loop s1 t (k + 1) cells = Inr (s1\<lparr>self_board := b'\<rparr>, k') \<and>
           removal_post sol t (k + 1) cells (self_board s1) b' k'"
        by (rule Cons.IH[OF s1(1) _ _ _ dc nz1]) (simp_all add: s1(2) g1 v1 u1)
      then obtain b' k' where ih: "remove_loop s1 t (k + 1) cells = Inr (s1\<lparr>self_board := b'\<rparr>, k')"
        "removal_post sol t (k + 1) cells b1 b' k'"
        unfolding s1(2) by blast
      have "s1\<lparr>self_board := b'\<rparr> = s\<lparr>self_board := b'\<rparr>" by (simp add: s1_def)
      with step ih(1) have "remove_loop s t k (p # cells) = Inr (s\<lparr>self_board := b'\<rparr>, k')"
        by simp
      moreover have "removal_post sol t k (p # cells) b b' k'"
        unfolding p by (rule post_removed[OF w r c nz fresh False ih(2)[unfolded b1_def]])
      ultimately show ?thesis unfolding b_def by blast
    next
      case kk: False
      have "1 \<le> card (completions 9 b1)"
        using in1 finite_completions[of 9 b1] by (metis One_nat_def Suc_leI card_gt_0_iff empty_iff)
      from counts_two[OF ck this kk] have st: "stuck 9 b r c" by (simp add: stuck_def b1_def)
      have "set_cell b1 r c (b ! r ! c) = Inr (upd b1 r c (b ! r ! c))"
        by (rule set_cell_wf[OF w1 r c])
      then have sc2: "set_cell (self_board s1) r c (b ! r ! c) = Inr b"
        by (simp add: s1(2) b1_def upd_upd upd_same)
      have restored: "s1\<lparr>self_board := b\<rparr> = s" by (simp add: s1_def b_def)
      have step: "remove_loop s t k (p # cells) = remove_loop s t k cells"
        using False gc sc cs kk sc2 restored by (simp add: p s1_def[symmetric])
      have nz0: "\<forall>q \<in> set cells. fst q < 9 \<and> snd q < 9 \<and> self_board s ! fst q ! snd q \<noteq> 0"
        using Cons.prems(6) by simp
      have "\<exists>b' k'. remove_loop s t k cells = Inr (s\<lparr>self_board := b'\<rparr>, k') \<and>
           removal_post sol t k cells (self_board s) b' k'"
        by (rule Cons.IH[OF Cons.prems(1,2,3,4) dc nz0])
      then obtain b' k' where ih: "remove_loop s t k cells = Inr (s\<lparr>self_board := b'\<rparr>, k')"
        "removal_post sol t k cells b b' k'"
        unfolding b_def by blast
      have "removal_post sol t k (p # cells) b b' k'"
        unfolding p by (rule post_rejected[OF w r c st ih(2)])
      with step ih(1) show ?thesis unfolding b_def by auto
    qed
  qed
qed

lemma zrow_zero: "0 \<notin> set row \<Longrightarrow> zrow row = 0"
  by (induction row) (auto simp: zrow_def)

lemma zeros_complete:
  assumes "wf_board n board" "complete n board"
  shows "zeros board = 0"
proof -
  have "zrow row = 0" if "row \<in> set board" for row
  proof (rule zrow_zero, rule notI)
    assume "0 \<in> set row"
    then obtain c where c: "c < length row" "row ! c = 0" by (auto simp: in_set_conv_nth)
    from that obtain r where r: "r < length board" "board ! r = row" by (auto simp: in_set_conv_nth)
    from assms(1) r c have "r < n" "c < n" by (auto simp: wf_board_def)
    with assms(2) r c show False by (auto simp: complete_def)
  qed
  then show ?thesis by (simp add: zeros_def)
qed

lemma shuffle_distinct: "shuffle xs rng = (ys, rng') \<Longrightarrow> distinct xs \<Longrightarrow> distinct ys"
  using shuffle_mset[of xs rng] by (metis fst_conv mset_eq_imp_distinct_iff)

lemma all_cells_product: "all_cells n = List.product [0..<n] [0..<n]"
  unfolding all_cells_def box_cells_map by simp

lemma all_cells_distinct: "distinct (all_cells n)"
  by (simp add: all_cells_product distinct_product)

text \<open>The equations of the three searches are no longer unfolded by the simplifier.\<close>

declare solve.simps [simp del] count_solutions.simps [simp del] fill_board.simps [simp del]

lemma generate_puzzle_spec:
  assumes "self_size s = 9"
  shows "\<exists>b' k' sol rng'.
     generate_puzzle s difficulty rng =
       Inr (s\<lparr>self_board := b', self_solution := Some sol, self_original_puzzle := Some b'\<rparr>, rng') \<and>
     grid 9 sol \<and> complete 9 sol \<and> valid_board 9 sol \<and>
     removal_post sol (squares_to_remove difficulty) 0 (all_cells 9) sol b' k'"
proof -
  from generate_board_spec[OF assms, of rng] obtain sol rng1
    where gb: "generate_board s rng = Inr (s\<lparr>self_board := sol, self_solution := Some sol\<rparr>, rng1)"
      and sol: "grid 9 sol" "complete 9 sol" "valid_board 9 sol"
    by blast
  define s1 where "s1 = s\<lparr>self_board := sol, self_solution := Some sol\<rparr>"
  have s1: "self_size s1 = 9" "self_board s1 = sol" using assms by (simp_all add: s1_def)
  obtain cells rng2 where sh: "shuffle (all_cells 9) rng1 = (cells, rng2)"
    by (cases "shuffle (all_cells 9) rng1")
  from shuffle_set[OF sh] have sc: "set cells = set (all_cells 9)" .
  from shuffle_distinct[OF sh all_cells_distinct] have dc: "distinct cells" .
  have nz: "\<forall>p \<in> set cells. fst p < 9 \<and> snd p < 9 \<and> self_board s1 ! fst p ! snd p \<noteq> 0"
    unfolding s1(2) sc all_cells_set using sol(2) by (auto simp: complete_def)
  have "\<exists>b' k'. remove_loop s1 (squares_to_remove difficulty) 0 cells
            = Inr (s1\<lparr>self_board := b'\<rparr>, k') \<and>
          removal_post sol (squares_to_remove difficulty) 0 cells (self_board s1) b' k'"
    by (rule remove_loop_spec[OF s1(1) _ _ _ dc nz])
      (simp_all add: s1(2) sol completions_complete[OF sol])
  then obtain b' k' where rl: "remove_loop s1 (squares_to_remove difficulty) 0 cells
            = Inr (s1\<lparr>self_board := b'\<rparr>, k')"
    and post: "removal_post sol (squares_to_remove difficulty) 0 cells sol b' k'"
    unfolding s1(2) by blast
  from post sc have post': "removal_post sol (squares_to_remove difficulty) 0 (all_cells 9) sol b' k'"
    by (simp add: removal_post_def)
  have "generate_puzzle s difficulty rng =
       Inr (s\<lparr>self_board := b', self_solution := Some sol, self_original_puzzle := Some b'\<rparr>, rng2)"
    using gb sh rl assms
    by (simp add: generate_puzzle_def s1_def[symmetric] s1 copy_board_id) (simp add: s1_def)
  with sol post' show ?thesis by blast
qed

lemma counts_unique: "counts k 1 \<Longrightarrow> k = 1"
  by (simp add: counts_def)

lemma make_move_locked:
  assumes "self_original_puzzle t = Some original" "wf_board 9 original"
    "0 \<le> row" "row < 9" "0 \<le> col" "col < 9" "original ! nat row ! nat col \<noteq> 0"
  shows "\<exists>out. make_move t row col val = Inr (out, t) \<and> out \<noteq> Moved"
proof -
  from assms(3-6) have "nat row < 9" "nat col < 9" by simp_all
  from wf_get_cell[OF assms(2) this]
  have "get_cell original (nat row) (nat col) = Inr (original ! nat row ! nat col)" .
  with assms(1,7) show ?thesis by (simp add: make_move_def)
qed

section \<open>Generated puzzles\<close>

text \<open>
  Claim C1. Whatever the random sequence and the difficulty, \<open>generate_puzzle\<close> on a
  9 by 9 game returns a puzzle: the solution is a solved board, it is the one and only
  completion of the givens, the counter returns exactly 1 on the givens, and the solver
  run on the givens returns true with the solution on the board.
\<close>

theorem generate_puzzle_unique:
  assumes "self_size s = 9"
  shows "\<exists>s' rng' sol.
     generate_puzzle s difficulty rng = Inr (s', rng') \<and> self_solution s' = Some sol \<and>
     solved 9 sol \<and> completions 9 (self_board s') = {sol} \<and>
     count_solutions 9 (self_board s') = Inr (1, self_board s') \<and>
     solve 9 (self_board s') = Inr (True, sol)"
proof -
  from generate_puzzle_spec[OF assms, of difficulty rng] obtain b' k' sol rng'
    where gp: "generate_puzzle s difficulty rng =
       Inr (s\<lparr>self_board := b', self_solution := Some sol, self_original_puzzle := Some b'\<rparr>, rng')"
      and sol: "grid 9 sol" "complete 9 sol" "valid_board 9 sol"
      and post: "removal_post sol (squares_to_remove difficulty) 0 (all_cells 9) sol b' k'"
    by blast
  from post have b': "grid 9 b'" "valid_board 9 b'" "completions 9 b' = {sol}"
    by (simp_all add: removal_post_def)
  from count_solutions_spec[OF b'(1) _ b'(2)] b'(3) obtain k
    where "count_solutions 9 b' = Inr (k, b')" "counts k 1"
    by auto
  with counts_unique have c: "count_solutions 9 b' = Inr (1, b')" by auto
  from solve_spec[OF b'(1) _ b'(2)] b'(3) have sv: "solve 9 b' = Inr (True, sol)" by auto
  from solved_grid[OF sol] have sd: "solved 9 sol" .
  let ?s' = "s\<lparr>self_board := b', self_solution := Some sol, self_original_puzzle := Some b'\<rparr>"
  have "self_solution ?s' = Some sol" "self_board ?s' = b'" by simp_all
  with gp b'(3) c sv sd show ?thesis
    by (intro exI[of _ ?s'] exI[of _ rng'] exI[of _ sol]) simp
qed

theorem generate_puzzle_unique_witness:
  "\<exists>s' rng' sol.
     generate_puzzle (sudoku_init 9) ''easy'' [] = Inr (s', rng') \<and> self_solution s' = Some sol \<and>
     solved 9 sol \<and> completions 9 (self_board s') = {sol} \<and>
     count_solutions 9 (self_board s') = Inr (1, self_board s') \<and>
     solve 9 (self_board s') = Inr (True, sol)"
proof -
  have "self_size (sudoku_init 9) = 9" by (simp add: sudoku_init_def)
  then show ?thesis by (rule generate_puzzle_unique)
qed

text \<open>
  Claim C7. The target is 40 for \<open>'easy'\<close>, 50 for \<open>'medium'\<close>, 60 for \<open>'hard'\<close> and 40
  for any other input. On a 9 by 9 game \<open>generate_puzzle\<close> returns givens with at most
  that many empty cells (\<open>zeros\<close> counts them); when there are fewer, no filled cell is
  left whose removal keeps the solution unique: clearing any of them gives a board on
  which the counter returns 2 or more.
\<close>

theorem generate_puzzle_removes:
  assumes "self_size s = 9"
  shows "squares_to_remove ''easy'' = 40 \<and> squares_to_remove ''medium'' = 50 \<and>
     squares_to_remove ''hard'' = 60 \<and>
     (difficulty \<notin> {''easy'', ''medium'', ''hard''} \<longrightarrow> squares_to_remove difficulty = 40) \<and>
     (\<exists>s' rng'. generate_puzzle s difficulty rng = Inr (s', rng') \<and>
        int (zeros (self_board s')) \<le> squares_to_remove difficulty \<and>
        (int (zeros (self_board s')) < squares_to_remove difficulty \<longrightarrow>
           (\<forall>r<9. \<forall>c<9. self_board s' ! r ! c \<noteq> 0 \<longrightarrow>
              (\<exists>k. count_solutions 9 (upd (self_board s') r c 0)
                     = Inr (k, upd (self_board s') r c 0) \<and> 2 \<le> k))))"
proof -
  have t: "squares_to_remove ''easy'' = 40" "squares_to_remove ''medium'' = 50"
    "squares_to_remove ''hard'' = 60"
    "difficulty \<notin> {''easy'', ''medium'', ''hard''} \<longrightarrow> squares_to_remove difficulty = 40"
    by (simp_all add: squares_to_remove_def)
  have t0: "0 \<le> squares_to_remove difficulty" by (simp add: squares_to_remove_def)
  from generate_puzzle_spec[OF assms, of difficulty rng] obtain b' k' sol rng'
    where gp: "generate_puzzle s difficulty rng =
       Inr (s\<lparr>self_board := b', self_solution := Some sol, self_original_puzzle := Some b'\<rparr>, rng')"
      and sol: "grid 9 sol" "complete 9 sol" "valid_board 9 sol"
      and post: "removal_post sol (squares_to_remove difficulty) 0 (all_cells 9) sol b' k'"
    by blast
  from sol have z0: "zeros sol = 0" by (intro zeros_complete[of 9]) (simp_all add: grid_def)
  from post z0 t0 have b': "grid 9 b'" "valid_board 9 b'"
    and zk: "int (zeros b') = k'" and kt: "k' \<le> squares_to_remove difficulty"
    and st: "k' < squares_to_remove difficulty \<longrightarrow>
       (\<forall>p \<in> set (all_cells 9). b' ! fst p ! snd p \<noteq> 0 \<longrightarrow> stuck 9 b' (fst p) (snd p))"
    by (simp_all add: removal_post_def)
  from b'(1) have w: "wf_board 9 b'" by (simp add: grid_def)
  have more: "\<exists>k. count_solutions 9 (upd b' r c 0) = Inr (k, upd b' r c 0) \<and> 2 \<le> k"
    if lt: "int (zeros b') < squares_to_remove difficulty" and r: "r < 9" and c: "c < 9"
      and nz: "b' ! r ! c \<noteq> 0" for r c
  proof -
    from r c have "(r, c) \<in> set (all_cells 9)" by (simp add: all_cells_set)
    with st lt zk nz have "stuck 9 b' r c" by fastforce
    then have two: "2 \<le> card (completions 9 (upd b' r c 0))" by (simp add: stuck_def)
    have "grid 9 (upd b' r c 0)" using b'(1) by (intro grid_upd) simp_all
    from count_solutions_spec[OF this _ valid_clear[OF w r c b'(2)]]
    obtain k where k: "count_solutions 9 (upd b' r c 0) = Inr (k, upd b' r c 0)"
      "counts k (card (completions 9 (upd b' r c 0)))"
      by auto
    from k(2) two have "2 \<le> k" by (simp add: counts_def min_def)
    with k(1) show ?thesis by blast
  qed
  have "\<exists>s' rng'. generate_puzzle s difficulty rng = Inr (s', rng') \<and>
        int (zeros (self_board s')) \<le> squares_to_remove difficulty \<and>
        (int (zeros (self_board s')) < squares_to_remove difficulty \<longrightarrow>
           (\<forall>r<9. \<forall>c<9. self_board s' ! r ! c \<noteq> 0 \<longrightarrow>
              (\<exists>k. count_solutions 9 (upd (self_board s') r c 0)
                     = Inr (k, upd (self_board s') r c 0) \<and> 2 \<le> k)))"
  proof (intro exI[of _ "s\<lparr>self_board := b', self_solution := Some sol,
        self_original_puzzle := Some b'\<rparr>"] exI[of _ rng'] conjI)
    show "generate_puzzle s difficulty rng =
       Inr (s\<lparr>self_board := b', self_solution := Some sol, self_original_puzzle := Some b'\<rparr>, rng')"
      by (rule gp)
    show "int (zeros (self_board (s\<lparr>self_board := b', self_solution := Some sol,
        self_original_puzzle := Some b'\<rparr>))) \<le> squares_to_remove difficulty"
      using zk kt by simp
    show "int (zeros (self_board (s\<lparr>self_board := b', self_solution := Some sol,
        self_original_puzzle := Some b'\<rparr>))) < squares_to_remove difficulty \<longrightarrow>
      (\<forall>r<9. \<forall>c<9. self_board (s\<lparr>self_board := b', self_solution := Some sol,
        self_original_puzzle := Some b'\<rparr>) ! r ! c \<noteq> 0 \<longrightarrow>
        (\<exists>k. count_solutions 9 (upd (self_board (s\<lparr>self_board := b', self_solution := Some sol,
        self_original_puzzle := Some b'\<rparr>)) r c 0) =
          Inr (k, upd (self_board (s\<lparr>self_board := b', self_solution := Some sol,
        self_original_puzzle := Some b'\<rparr>)) r c 0) \<and> 2 \<le> k))"
      using more by simp
  qed
  with t show ?thesis by (intro conjI)
qed

theorem generate_puzzle_removes_witness:
  "\<exists>s' rng'. generate_puzzle (sudoku_init 9) ''hard'' [] = Inr (s', rng') \<and>
        int (zeros (self_board s')) \<le> 60"
proof -
  have "self_size (sudoku_init 9) = 9" by (simp add: sudoku_init_def)
  from generate_puzzle_removes[OF this, of "''hard''" "[]"] show ?thesis by auto
qed

text \<open>
  Claim C8. On a 9 by 9 game, after \<open>generate_puzzle\<close> the original puzzle is a copy of the
  givens, every filled cell of the givens holds the value of the solution at that cell,
  and from then on (in any state with that original puzzle) a move on a cell that is
  filled in the givens is refused and leaves the object, board included, as it was.
\<close>

theorem generate_puzzle_locks:
  assumes "self_size s = 9"
  shows "\<exists>s' rng' sol.
     generate_puzzle s difficulty rng = Inr (s', rng') \<and> self_solution s' = Some sol \<and>
     self_original_puzzle s' = Some (self_board s') \<and>
     (\<forall>r<9. \<forall>c<9. self_board s' ! r ! c \<noteq> 0 \<longrightarrow> self_board s' ! r ! c = sol ! r ! c) \<and>
     (\<forall>t row col val. self_original_puzzle t = self_original_puzzle s' \<and>
        0 \<le> row \<and> row < 9 \<and> 0 \<le> col \<and> col < 9 \<and>
        self_board s' ! nat row ! nat col \<noteq> 0 \<longrightarrow>
        (\<exists>out. make_move t row col val = Inr (out, t) \<and> out \<noteq> Moved))"
proof -
  from generate_puzzle_spec[OF assms, of difficulty rng] obtain b' k' sol rng'
    where gp: "generate_puzzle s difficulty rng =
       Inr (s\<lparr>self_board := b', self_solution := Some sol, self_original_puzzle := Some b'\<rparr>, rng')"
      and post: "removal_post sol (squares_to_remove difficulty) 0 (all_cells 9) sol b' k'"
    by blast
  from post have b': "grid 9 b'" "extends 9 b' sol" by (simp_all add: removal_post_def)
  from b'(1) have w: "wf_board 9 b'" by (simp add: grid_def)
  have ag: "\<forall>r<9. \<forall>c<9. b' ! r ! c \<noteq> 0 \<longrightarrow> b' ! r ! c = sol ! r ! c"
    using b'(2) by (simp add: extends_def)
  have lk: "\<exists>out. make_move t row col val = Inr (out, t) \<and> out \<noteq> Moved"
    if "self_original_puzzle t = Some b'" "0 \<le> row" "row < 9" "0 \<le> col" "col < 9"
      "b' ! nat row ! nat col \<noteq> 0" for t row col val
    using that w by (intro make_move_locked) simp_all
  let ?s' = "s\<lparr>self_board := b', self_solution := Some sol, self_original_puzzle := Some b'\<rparr>"
  have a: "\<forall>r<9. \<forall>c<9. self_board ?s' ! r ! c \<noteq> 0 \<longrightarrow> self_board ?s' ! r ! c = sol ! r ! c"
    using ag by simp
  have l: "\<forall>t row col val. self_original_puzzle t = self_original_puzzle ?s' \<and>
        0 \<le> row \<and> row < 9 \<and> 0 \<le> col \<and> col < 9 \<and>
        self_board ?s' ! nat row ! nat col \<noteq> 0 \<longrightarrow>
        (\<exists>out. make_move t row col val = Inr (out, t) \<and> out \<noteq> Moved)"
    using lk by simp
  have o: "self_solution ?s' = Some sol" "self_original_puzzle ?s' = Some (self_board ?s')"
    by simp_all
  from gp o a l show ?thesis
    by (intro exI[of _ ?s'] exI[of _ rng'] exI[of _ sol] conjI)
qed

theorem generate_puzzle_locks_witness:
  "\<exists>s' rng' sol.
     generate_puzzle (sudoku_init 9) ''medium'' [] = Inr (s', rng') \<and> self_solution s' = Some sol \<and>
     self_original_puzzle s' = Some (self_board s')"
proof -
  have "self_size (sudoku_init 9) = 9" by (simp add: sudoku_init_def)
  from generate_puzzle_locks[OF this, of "''medium''" "[]"] show ?thesis by blast
qed

end
